theory Spec2Isabelle
  imports Main "HOL-Library.AList"
begin

section \<open>Documents, errors and the calls made to the index backend\<close>

text \<open>
  The script \<^verbatim>\<open>ingestion.py\<close> keeps a persistent vector store in step with the
  files below \<^verbatim>\<open>knowledge_docs\<close>. A langchain \<^verbatim>\<open>Document\<close> has a text and a metadata
  dictionary; the dictionary is an association list here, read with \<open>map_of\<close> and
  written with \<open>AList.update\<close> (a key already present keeps its place, a new key goes to
  the end, as in a Python dict). A missing (\<^verbatim>\<open>None\<close>) metadata entry of the store and
  an empty dictionary are both the empty list: Python treats both as false.
\<close>

record document =
  page_content :: string
  metadata :: "(string \<times> string) list"

text \<open>
  The only exception that leaves the script is the one a loader raises: the path of the
  file is kept with it. The delete of a source is inside \<^verbatim>\<open>try/except\<close>, and so is the
  read of the stored metadata.
\<close>

datatype error = LoadError string

text \<open>
  The write calls the script makes on the backend, in the order it makes them:
  \<^verbatim>\<open>_collection.delete(where={"source": s})\<close>, \<^verbatim>\<open>Chroma.from_documents(documents=ds)\<close>
  and \<^verbatim>\<open>vector_store.add_documents(batch)\<close>.
\<close>

datatype backend_call =
    Delete string
  | FromDocuments "document list"
  | AddDocuments "document list"

fun call_size :: "backend_call \<Rightarrow> nat" where
  "call_size (Delete s) = 0"
| "call_size (FromDocuments ds) = length ds"
| "call_size (AddDocuments ds) = length ds"

fun is_upsert :: "backend_call \<Rightarrow> bool" where
  "is_upsert (Delete s) = False"
| "is_upsert (FromDocuments ds) = True"
| "is_upsert (AddDocuments ds) = True"

fun call_documents :: "backend_call \<Rightarrow> document list" where
  "call_documents (Delete s) = []"
| "call_documents (FromDocuments ds) = ds"
| "call_documents (AddDocuments ds) = ds"

fun delete_target :: "backend_call \<Rightarrow> string list" where
  "delete_target (Delete s) = [s]"
| "delete_target (FromDocuments ds) = []"
| "delete_target (AddDocuments ds) = []"

section \<open>The file system below the base directory\<close>

text \<open>
  A directory holds the names of its plain files and its subdirectories, each with its
  name. \<^verbatim>\<open>os.walk(top)\<close> yields, top down, one triple \<^verbatim>\<open>(root, dirs, files)\<close> for every
  directory it reaches. Symbolic links are not modelled. A base directory that does not
  exist makes \<^verbatim>\<open>os.walk\<close> yield nothing, which the script cannot tell from an empty
  directory.
\<close>

datatype dirtree = Dirtree (dir_files: "string list") (dir_subdirs: "(string \<times> dirtree) list")

definition path_join :: "string \<Rightarrow> string \<Rightarrow> string" where
  "path_join a b =
     (if b \<noteq> [] \<and> hd b = CHR ''/'' then b
      else if a = [] \<or> last a = CHR ''/'' then a @ b
      else a @ ''/'' @ b)"

definition endswith :: "string \<Rightarrow> string \<Rightarrow> bool" where
  "endswith s suf = (length suf \<le> length s \<and> drop (length s - length suf) s = suf)"

fun os_walk :: "string \<Rightarrow> dirtree \<Rightarrow> (string \<times> string list \<times> string list) list" where
  "os_walk root (Dirtree fs ds) =
     (root, map fst ds, fs) # concat (map (\<lambda>(n, t). os_walk (path_join root n) t) ds)"

definition base_directory :: string where
  "base_directory = ''knowledge_docs''"

text \<open>
  \<^verbatim>\<open>os.walk(os.path.join(base_directory, dir))\<close>: the path names the child \<open>dir\<close> of the
  base directory. When the base directory has no subdirectory of that name the walk
  yields nothing (\<^verbatim>\<open>os.walk\<close> ignores the error of listing a path that is not a
  directory).
\<close>

definition walk_product_dir ::
  "dirtree \<Rightarrow> string \<Rightarrow> (string \<times> string list \<times> string list) list" where
  "walk_product_dir corpus dir =
     (case map_of (dir_subdirs corpus) dir of
        None \<Rightarrow> []
      | Some t \<Rightarrow> os_walk (path_join base_directory dir) t)"

section \<open>What a run reads from outside\<close>

text \<open>
  \<open>corpus\<close> is the directory tree at \<^verbatim>\<open>knowledge_docs\<close>. \<open>persisted\<close> is \<open>None\<close> when
  the persist directory does not exist, and otherwise the documents of the stored
  collection. \<open>get_ok\<close> says whether \<^verbatim>\<open>existing_collection.get()\<close> returns; \<open>delete_ok s\<close>
  whether the delete of source \<open>s\<close> returns (a delete that raises is taken to leave the
  collection as it was). The two loaders and the text splitter are library code: a
  loader returns the documents of a file or raises, the splitter gets the chunk size,
  the overlap and the documents. \<^verbatim>\<open>add_documents\<close> and \<^verbatim>\<open>from_documents\<close> are taken to
  return.
\<close>

record env =
  corpus :: dirtree
  persisted :: "document list option"
  get_ok :: bool
  text_loader :: "string \<Rightarrow> error + document list"
  pdf_loader :: "string \<Rightarrow> error + document list"
  split_documents :: "nat \<Rightarrow> nat \<Rightarrow> document list \<Rightarrow> document list"
  delete_ok :: "string \<Rightarrow> bool"

section \<open>Reading the sources already stored\<close>

text \<open>
  A Python set is a list without duplicates: \<^verbatim>\<open>s.add(x)\<close> is \<open>List.insert\<close>. The order
  in which Python iterates over a set is not fixed by the language; the model iterates
  in list order, and the theorems speak of \<open>set\<close>.
\<close>

definition source_of :: "document \<Rightarrow> string option" where
  "source_of d = map_of (metadata d) ''source''"

definition product_of :: "document \<Rightarrow> string option" where
  "product_of d = map_of (metadata d) ''product''"

definition add_source :: "document \<Rightarrow> string list \<Rightarrow> string list" where
  "add_source d existing_sources =
     (if metadata d \<noteq> [] \<and> source_of d \<noteq> None
      then (case source_of d of
              None \<Rightarrow> existing_sources
            | Some s \<Rightarrow> List.insert s existing_sources)
      else existing_sources)"

definition read_existing_sources :: "env \<Rightarrow> string list" where
  "read_existing_sources e =
     (case persisted e of
        None \<Rightarrow> []
      | Some existing_docs \<Rightarrow>
          if get_ok e then fold add_source existing_docs [] else [])"

section \<open>Scanning and loading\<close>

record scan_state =
  total_docs :: nat
  total_files :: nat
  documents :: "document list"
  current_files :: "string list"
  read_log :: "string list"
  skip_log :: "string list"
  chunk_log :: "nat list"

definition init_scan :: scan_state where
  "init_scan = \<lparr>total_docs = 0, total_files = 0, documents = [], current_files = [],
     read_log = [], skip_log = [], chunk_log = []\<rparr>"

text \<open>
  \<open>read_log\<close>, \<open>skip_log\<close> and \<open>chunk_log\<close> are what the loop prints: the paths after
  \<^verbatim>\<open>Reading file:\<close>, the paths after \<^verbatim>\<open>Skipping (already in DB):\<close> and the numbers in
  \<^verbatim>\<open>created n chunks\<close>.
\<close>

definition stamp :: "string \<Rightarrow> string \<Rightarrow> document \<Rightarrow> document" where
  "stamp product full_path doc =
     doc\<lparr>metadata := AList.update ''source'' full_path
                        (AList.update ''product'' product (metadata doc))\<rparr>"

fun for_each :: "('a \<Rightarrow> 's \<Rightarrow> error + 's) \<Rightarrow> 'a list \<Rightarrow> 's \<Rightarrow> error + 's" where
  "for_each body [] st = Inr st"
| "for_each body (x # xs) st =
     (case body x st of Inl err \<Rightarrow> Inl err | Inr st' \<Rightarrow> for_each body xs st')"

text \<open>
  The body of the innermost loop, lines 59 to 90. The chunks \<open>texts\<close> are counted for
  the message and then dropped: the metadata is written to \<open>docs\<close> and \<open>docs\<close> is what
  joins \<open>documents\<close>.
\<close>

definition process_file ::
  "env \<Rightarrow> string list \<Rightarrow> string \<Rightarrow> string \<Rightarrow> string \<Rightarrow> scan_state \<Rightarrow> error + scan_state" where
  "process_file e existing_sources product product_root file st =
     (if endswith file ''.md'' \<or> endswith file ''.pdf'' then
        let full_path = path_join product_root file;
            st1 = st\<lparr>total_files := total_files st + 1,
                     current_files := List.insert full_path (current_files st)\<rparr>
        in if full_path \<in> set existing_sources
           then Inr (st1\<lparr>skip_log := skip_log st1 @ [full_path]\<rparr>)
           else
             (case (if endswith file ''.pdf'' then pdf_loader e full_path
                    else text_loader e full_path) of
                Inl err \<Rightarrow> Inl err
              | Inr docs \<Rightarrow>
                  let texts = split_documents e 1000 100 docs;
                      docs' = map (stamp product full_path) docs
                  in Inr (st1\<lparr>read_log := read_log st1 @ [full_path],
                              chunk_log := chunk_log st1 @ [length texts],
                              total_docs := total_docs st1 + length docs,
                              documents := documents st1 @ docs'\<rparr>))
      else Inr st)"

definition scan_product ::
  "env \<Rightarrow> string list \<Rightarrow> string \<Rightarrow> scan_state \<Rightarrow> error + scan_state" where
  "scan_product e existing_sources dir =
     for_each (\<lambda>(product_root, product_dirs, product_files).
                 for_each (process_file e existing_sources dir product_root) product_files)
       (walk_product_dir (corpus e) dir)"

definition scan :: "env \<Rightarrow> string list \<Rightarrow> error + scan_state" where
  "scan e existing_sources =
     for_each (\<lambda>(root, dirs, files). for_each (scan_product e existing_sources) dirs)
       (os_walk base_directory (corpus e)) init_scan"

section \<open>Deleting, writing and reporting\<close>

record backend =
  store :: "document list"
  calls :: "backend_call list"
  removed :: "string list"
  not_removed :: "string list"

text \<open>
  One pass of the loop of lines 101 to 109: the delete is issued; when it returns, the
  documents of that source are gone and \<^verbatim>\<open>Removed\<close> is printed, and when it raises the
  error is printed and the loop goes on.
\<close>

definition delete_source :: "(string \<Rightarrow> bool) \<Rightarrow> string \<Rightarrow> backend \<Rightarrow> backend" where
  "delete_source ok source b =
     (if ok source
      then b\<lparr>store := filter (\<lambda>d. source_of d \<noteq> Some source) (store b),
             calls := calls b @ [Delete source],
             removed := removed b @ [source]\<rparr>
      else b\<lparr>calls := calls b @ [Delete source],
             not_removed := not_removed b @ [source]\<rparr>)"

text \<open>\<^verbatim>\<open>range(0, n, step)\<close> for a positive step.\<close>

definition range_step :: "nat \<Rightarrow> nat \<Rightarrow> nat list" where
  "range_step n step = map (\<lambda>k. k * step) [0 ..< (n + step - 1) div step]"

definition batch_size :: nat where
  "batch_size = 5000"

definition add_batch :: "document list \<Rightarrow> nat \<Rightarrow> backend \<Rightarrow> backend" where
  "add_batch docs i b =
     (let batch = take batch_size (drop i docs)
      in b\<lparr>store := store b @ batch, calls := calls b @ [AddDocuments batch]\<rparr>)"

record report =
  files_scanned :: nat
  new_files_added :: nat
  new_documents :: nat
  files_deleted :: nat
  files_skipped :: nat

record run_result =
  existing :: "string list"
  scanned :: scan_state
  deleted_sources :: "string list"
  final :: backend
  printed :: report

text \<open>
  The whole script. \<open>vector_store\<close> is \<open>None\<close> exactly when the persist directory was
  absent. The test \<^verbatim>\<open>if vector_store:\<close> of line 100 is written as \<open>vector_store \<noteq> None\<close>;
  it is reached only with a non-empty \<open>deleted_sources\<close>, that is with a store that
  holds a document (\<open>deleted_needs_store\<close> below), so it is also true where the truth
  value of a store object is taken from the number of documents it holds. A load error
  leaves the script from inside the scan, before any call on the backend.
\<close>

definition run :: "env \<Rightarrow> error + run_result" where
  "run e =
     (let vector_store = persisted e;
          existing_sources = read_existing_sources e
      in case scan e existing_sources of
           Inl err \<Rightarrow> Inl err
         | Inr st \<Rightarrow>
             let deleted = filter (\<lambda>s. s \<notin> set (current_files st)) existing_sources;
                 b0 = \<lparr>store = (case vector_store of None \<Rightarrow> [] | Some ds \<Rightarrow> ds),
                        calls = [], removed = [], not_removed = []\<rparr>;
                 b1 = (if deleted \<noteq> [] then
                         (if vector_store \<noteq> None
                          then fold (delete_source (delete_ok e)) deleted b0 else b0)
                       else b0);
                 b2 = (if vector_store = None
                       then b1\<lparr>store := documents st,
                               calls := calls b1 @ [FromDocuments (documents st)]\<rparr>
                       else fold (add_batch (documents st))
                              (range_step (length (documents st)) batch_size) b1)
             in Inr \<lparr>existing = existing_sources, scanned = st, deleted_sources = deleted,
                      final = b2,
                      printed = \<lparr>files_scanned = total_files st,
                        new_files_added =
                          (if total_docs st > 0
                           then length (documents st) div max 1 (total_docs st) else 0),
                        new_documents = total_docs st,
                        files_deleted = length deleted,
                        files_skipped =
                          length (filter (\<lambda>s. s \<in> set (current_files st)) existing_sources)\<rparr>\<rparr>)"

section \<open>The scan as one pass over the recognised files\<close>

text \<open>
  The nested loops of lines 52 to 58 visit a list of files; the definitions below name
  that list, so that the properties of a run can be stated over it. \<open>scan_flat\<close> and
  \<open>scan_visits\<close> prove that the nested loops do what one loop over the list does.
\<close>

definition recognised :: "string \<Rightarrow> bool" where
  "recognised file = (endswith file ''.md'' \<or> endswith file ''.pdf'')"

definition loader_for :: "env \<Rightarrow> string \<Rightarrow> string \<Rightarrow> error + document list" where
  "loader_for e file full_path =
     (if endswith file ''.pdf'' then pdf_loader e full_path else text_loader e full_path)"

definition product_entries :: "dirtree \<Rightarrow> string \<Rightarrow> (string \<times> string \<times> string) list" where
  "product_entries c dir =
     concat (map (\<lambda>(product_root, product_dirs, product_files).
                    map (\<lambda>file. (dir, product_root, file)) product_files)
               (walk_product_dir c dir))"

definition scan_entries :: "dirtree \<Rightarrow> (string \<times> string \<times> string) list" where
  "scan_entries c =
     concat (map (\<lambda>(root, dirs, files). concat (map (product_entries c) dirs))
               (os_walk base_directory c))"

text \<open>The recognised files in the order the scanner meets them: product and full path.\<close>

definition visits :: "dirtree \<Rightarrow> (string \<times> string \<times> string) list" where
  "visits c = map (\<lambda>(product, product_root, file). (product, path_join product_root file, file))
                (filter (\<lambda>(product, product_root, file). recognised file) (scan_entries c))"

definition visit :: "env \<Rightarrow> string list \<Rightarrow> string \<times> string \<times> string \<Rightarrow> scan_state \<Rightarrow> error + scan_state" where
  "visit e existing_sources v st =
     (case v of (product, full_path, file) \<Rightarrow>
        let st1 = st\<lparr>total_files := total_files st + 1,
                     current_files := List.insert full_path (current_files st)\<rparr>
        in if full_path \<in> set existing_sources
           then Inr (st1\<lparr>skip_log := skip_log st1 @ [full_path]\<rparr>)
           else
             (case loader_for e file full_path of
                Inl err \<Rightarrow> Inl err
              | Inr docs \<Rightarrow>
                  Inr (st1\<lparr>read_log := read_log st1 @ [full_path],
                           chunk_log := chunk_log st1 @ [length (split_documents e 1000 100 docs)],
                           total_docs := total_docs st1 + length docs,
                           documents := documents st1 @ map (stamp product full_path) docs\<rparr>)))"

definition new_docs :: "env \<Rightarrow> string list \<Rightarrow> (string \<times> string \<times> string) list \<Rightarrow> document list" where
  "new_docs e ex vs =
     concat (map (\<lambda>(product, full_path, file).
                    if full_path \<in> set ex then []
                    else (case loader_for e file full_path of
                            Inl err \<Rightarrow> []
                          | Inr docs \<Rightarrow> map (stamp product full_path) docs)) vs)"

text \<open>The backend before the first call of a run, and after its deletions.\<close>

definition initial_backend :: "env \<Rightarrow> backend" where
  "initial_backend e =
     \<lparr>store = (case persisted e of None \<Rightarrow> [] | Some ds \<Rightarrow> ds),
      calls = [], removed = [], not_removed = []\<rparr>"

definition after_deletes :: "env \<Rightarrow> run_result \<Rightarrow> backend" where
  "after_deletes e r = fold (delete_source (delete_ok e)) (deleted_sources r) (initial_backend e)"

section \<open>Concrete runs\<close>

text \<open>
  A corpus with one product directory: a new markdown file, a file already stored, a
  file of another type, a nested directory with a new PDF, and a markdown file directly
  below the base directory. The store holds two sources that are gone from disk, the
  stored file and a document without metadata; the delete of one gone source fails.
\<close>

definition sample_corpus :: dirtree where
  "sample_corpus =
     Dirtree [''README.md'']
       [(''sdwan'', Dirtree [''a.md'', ''keep.md'', ''notes.txt'']
                      [(''deep'', Dirtree [''b.pdf''] [])])]"

definition sample_store :: "document list" where
  "sample_store =
     [\<lparr>page_content = ''old'', metadata = [(''source'', ''knowledge_docs/sdwan/old.md'')]\<rparr>,
      \<lparr>page_content = ''gone'', metadata = [(''source'', ''knowledge_docs/sdwan/gone.md'')]\<rparr>,
      \<lparr>page_content = ''kept'', metadata = [(''source'', ''knowledge_docs/sdwan/keep.md'')]\<rparr>,
      \<lparr>page_content = ''bare'', metadata = []\<rparr>]"

definition sample_env :: env where
  "sample_env =
     \<lparr>corpus = sample_corpus,
      persisted = Some sample_store,
      get_ok = True,
      text_loader = (\<lambda>p. Inr [\<lparr>page_content = ''text'', metadata = [(''source'', p)]\<rparr>]),
      pdf_loader = (\<lambda>p. Inr [\<lparr>page_content = ''page one'', metadata = [(''source'', p)]\<rparr>,
                            \<lparr>page_content = ''page two'', metadata = [(''source'', p)]\<rparr>]),
      split_documents = (\<lambda>chunk_size chunk_overlap docs. docs),
      delete_ok = (\<lambda>s. s \<noteq> ''knowledge_docs/sdwan/gone.md'')\<rparr>"

definition fresh_env :: env where
  "fresh_env = sample_env\<lparr>persisted := None\<rparr>"

text \<open>What a run that completed shows, and nothing for a run that stopped with an error.\<close>

definition on_result :: "(run_result \<Rightarrow> 'a) \<Rightarrow> error + run_result \<Rightarrow> 'a option" where
  "on_result f res = (case res of Inl err \<Rightarrow> None | Inr r \<Rightarrow> Some (f r))"

definition upsert_sizes :: "run_result \<Rightarrow> nat list" where
  "upsert_sizes r = map call_size (filter is_upsert (calls (final r)))"

text \<open>
  One product directory with one PDF of 12000 pages, so that 12000 documents are
  accumulated: once with an empty store already there, once with no store.
\<close>

definition bulk_env :: env where
  "bulk_env =
     \<lparr>corpus = Dirtree [] [(''manuals'', Dirtree [''guide.pdf''] [])],
      persisted = Some [],
      get_ok = True,
      text_loader = (\<lambda>p. Inr []),
      pdf_loader = (\<lambda>p. Inr (replicate 12000 \<lparr>page_content = ''page'', metadata = [(''source'', p)]\<rparr>)),
      split_documents = (\<lambda>chunk_size chunk_overlap docs. docs),
      delete_ok = (\<lambda>s. True)\<rparr>"

definition bulk_fresh_env :: env where
  "bulk_fresh_env = bulk_env\<lparr>persisted := None\<rparr>"

text \<open>Ten new markdown files in one product directory; the loader fails on the fourth.\<close>

definition ten_files_env :: env where
  "ten_files_env =
     \<lparr>corpus = Dirtree []
        [(''docs'', Dirtree [''f0.md'', ''f1.md'', ''f2.md'', ''f3.md'', ''f4.md'', ''f5.md'',
                             ''f6.md'', ''f7.md'', ''f8.md'', ''f9.md''] [])],
      persisted = Some [],
      get_ok = True,
      text_loader = (\<lambda>p. if p = ''knowledge_docs/docs/f3.md'' then Inl (LoadError p)
                          else Inr [\<lparr>page_content = ''text'', metadata = [(''source'', p)]\<rparr>]),
      pdf_loader = (\<lambda>p. Inr []),
      split_documents = (\<lambda>chunk_size chunk_overlap docs. docs),
      delete_ok = (\<lambda>s. True)\<rparr>"

text \<open>
  A fresh index and one new markdown file whose text is two paragraphs of 600 characters
  with an empty line between them, 1202 characters in all. The text splitter is left
  open.
\<close>

definition long_text :: string where
  "long_text = replicate 600 CHR ''a'' @ [CHR 0x0A, CHR 0x0A] @ replicate 600 CHR ''b''"

definition chunk_env :: "(nat \<Rightarrow> nat \<Rightarrow> document list \<Rightarrow> document list) \<Rightarrow> env" where
  "chunk_env splitter =
     \<lparr>corpus = Dirtree [] [(''sdwan'', Dirtree [''a.md''] [])],
      persisted = None,
      get_ok = True,
      text_loader = (\<lambda>p. Inr [\<lparr>page_content = long_text, metadata = [(''source'', p)]\<rparr>]),
      pdf_loader = (\<lambda>p. Inr []),
      split_documents = splitter,
      delete_ok = (\<lambda>s. True)\<rparr>"

text \<open>
  A product directory \<open>A\<close> with an empty subdirectory \<open>B\<close>, beside a product directory
  \<open>B\<close> with one new markdown file.
\<close>

definition nested_env :: env where
  "nested_env =
     \<lparr>corpus = Dirtree []
        [(''A'', Dirtree [] [(''B'', Dirtree [] [])]),
         (''B'', Dirtree [''x.md''] [])],
      persisted = Some [],
      get_ok = True,
      text_loader = (\<lambda>p. Inr [\<lparr>page_content = ''text'', metadata = [(''source'', p)]\<rparr>]),
      pdf_loader = (\<lambda>p. Inr []),
      split_documents = (\<lambda>chunk_size chunk_overlap docs. docs),
      delete_ok = (\<lambda>s. True)\<rparr>"

section \<open>File names, paths below a directory, and the second run\<close>

text \<open>
  The names a file system gives: not empty and without a slash. \<open>tree_paths root t\<close>
  are the paths of the files at any depth below the directory \<open>t\<close> found at \<open>root\<close>.
\<close>

definition valid_name :: "string \<Rightarrow> bool" where
  "valid_name n = (n \<noteq> [] \<and> CHR ''/'' \<notin> set n)"

fun names_ok :: "dirtree \<Rightarrow> bool" where
  "names_ok (Dirtree fs ds) =
     ((\<forall>f\<in>set fs. valid_name f) \<and> (\<forall>(n, t)\<in>set ds. valid_name n \<and> names_ok t))"

fun tree_paths :: "string \<Rightarrow> dirtree \<Rightarrow> string list" where
  "tree_paths root (Dirtree fs ds) =
     map (path_join root) fs @ concat (map (\<lambda>(n, t). tree_paths (path_join root n) t) ds)"

text \<open>
  The second run: the same corpus, loaders and backend behaviour, and the store the
  first run left behind.
\<close>

definition rerun_env :: "env \<Rightarrow> run_result \<Rightarrow> env" where
  "rerun_env e r = e\<lparr>persisted := Some (store (final r))\<rparr>"

definition healthy_env :: env where
  "healthy_env = sample_env\<lparr>delete_ok := (\<lambda>s. True)\<rparr>"

text \<open>
  Two runs in a row: the second on the store the first one left, and nothing when the
  first stopped with an error.
\<close>

definition second_run :: "env \<Rightarrow> error + run_result" where
  "second_run e = (case run e of Inl err \<Rightarrow> Inl err | Inr r \<Rightarrow> run (rerun_env e r))"

text \<open>The sample with every delete returning and a snapshot that cannot be read.\<close>

definition unreadable_env :: env where
  "unreadable_env = healthy_env\<lparr>get_ok := False\<rparr>"

text \<open>
  The value of \<open>texts\<close> at line 82 for a new file: the splitter applied to what the
  loader returned, before lines 85 to 87 write product and source into \<open>docs\<close>. The
  splitter builds new documents with a copy of the metadata, so these writes do not
  reach the chunks.
\<close>

definition texts_of :: "env \<Rightarrow> string \<Rightarrow> string \<Rightarrow> document list" where
  "texts_of e fname full_path =
     (case loader_for e fname full_path of
        Inl err \<Rightarrow> []
      | Inr docs \<Rightarrow> split_documents e 1000 100 docs)"

section \<open>Properties of the scan\<close>

lemma for_each_append:
  "for_each body (xs @ ys) st =
     (case for_each body xs st of Inl err \<Rightarrow> Inl err | Inr st' \<Rightarrow> for_each body ys st')"
  by (induction xs arbitrary: st) (auto split: sum.splits)

lemma for_each_concat:
  "for_each (\<lambda>x. for_each body (g x)) xs = for_each body (concat (map g xs))"
proof
  fix st show "for_each (\<lambda>x. for_each body (g x)) xs st = for_each body (concat (map g xs)) st"
    by (induction xs arbitrary: st) (auto simp: for_each_append split: sum.splits)
qed

lemma for_each_map:
  "for_each body (map g xs) = for_each (\<lambda>x. body (g x)) xs"
proof
  fix st show "for_each body (map g xs) st = for_each (\<lambda>x. body (g x)) xs st"
    by (induction xs arbitrary: st) (auto split: sum.splits)
qed

lemma for_each_filter:
  "for_each (\<lambda>x st. if P x then body x st else Inr st) xs = for_each body (filter P xs)"
proof
  fix st
  show "for_each (\<lambda>x st. if P x then body x st else Inr st) xs st = for_each body (filter P xs) st"
    by (induction xs arbitrary: st) (auto split: sum.splits)
qed

lemma scan_product_flat:
  "scan_product e ex =
     (\<lambda>dir. for_each (\<lambda>(product, product_root, file). process_file e ex product product_root file)
       (product_entries (corpus e) dir))"
  unfolding product_entries_def scan_product_def
  by (simp add: for_each_concat [symmetric] for_each_map case_prod_unfold)

lemma scan_flat:
  "scan e ex =
     for_each (\<lambda>(product, product_root, file). process_file e ex product product_root file)
       (scan_entries (corpus e)) init_scan"
  unfolding scan_def scan_entries_def
  by (simp add: for_each_concat [symmetric] scan_product_flat case_prod_unfold)

lemma process_file_visit:
  "process_file e ex product product_root file =
     (\<lambda>st. if recognised file then visit e ex (product, path_join product_root file, file) st
           else Inr st)"
  by (rule ext)
    (auto simp: process_file_def visit_def recognised_def loader_for_def Let_def split: sum.splits)

lemma scan_visits: "scan e ex = for_each (visit e ex) (visits (corpus e)) init_scan"
  unfolding visits_def scan_flat
  by (simp add: for_each_map for_each_filter [symmetric] process_file_visit case_prod_unfold)

lemma visits_current_files:
  "for_each (visit e ex) vs st = Inr st' \<Longrightarrow>
   set (current_files st') = set (current_files st) \<union> (\<lambda>v. fst (snd v)) ` set vs"
  by (induction vs arbitrary: st)
    (auto simp: visit_def Let_def split: sum.splits if_splits prod.splits)

lemma visits_current_distinct:
  "for_each (visit e ex) vs st = Inr st' \<Longrightarrow> distinct (current_files st) \<Longrightarrow>
   distinct (current_files st')"
  by (induction vs arbitrary: st)
    (auto simp: visit_def Let_def split: sum.splits if_splits prod.splits)

lemma visits_total_files:
  "for_each (visit e ex) vs st = Inr st' \<Longrightarrow> total_files st' = total_files st + length vs"
  by (induction vs arbitrary: st)
    (auto simp: visit_def Let_def split: sum.splits if_splits prod.splits)

lemma visits_read_log:
  "for_each (visit e ex) vs st = Inr st' \<Longrightarrow>
   read_log st' = read_log st @ filter (\<lambda>p. p \<notin> set ex) (map (\<lambda>v. fst (snd v)) vs)"
  by (induction vs arbitrary: st)
    (auto simp: visit_def Let_def split: sum.splits if_splits prod.splits)

lemma visits_skip_log:
  "for_each (visit e ex) vs st = Inr st' \<Longrightarrow>
   skip_log st' = skip_log st @ filter (\<lambda>p. p \<in> set ex) (map (\<lambda>v. fst (snd v)) vs)"
  by (induction vs arbitrary: st)
    (auto simp: visit_def Let_def split: sum.splits if_splits prod.splits)

lemma visits_documents:
  "for_each (visit e ex) vs st = Inr st' \<Longrightarrow>
   documents st' = documents st @ new_docs e ex vs"
  by (induction vs arbitrary: st)
    (auto simp: visit_def new_docs_def Let_def split: sum.splits if_splits prod.splits)

lemma visits_total_docs:
  "for_each (visit e ex) vs st = Inr st' \<Longrightarrow>
   total_docs st' = total_docs st + length (new_docs e ex vs)"
  by (induction vs arbitrary: st)
    (auto simp: visit_def new_docs_def Let_def split: sum.splits if_splits prod.splits)

lemma visits_loaded:
  "for_each (visit e ex) vs st = Inr st' \<Longrightarrow> (product, full_path, file) \<in> set vs \<Longrightarrow>
   full_path \<notin> set ex \<Longrightarrow> \<exists>docs. loader_for e file full_path = Inr docs"
  by (induction vs arbitrary: st)
    (auto simp: visit_def Let_def split: sum.splits if_splits prod.splits)

lemma visits_failed:
  "for_each (visit e ex) vs st = Inl err \<Longrightarrow>
   \<exists>product full_path file. (product, full_path, file) \<in> set vs \<and> full_path \<notin> set ex \<and>
      loader_for e file full_path = Inl err"
proof (induction vs arbitrary: st)
  case Nil
  then show ?case by simp
next
  case (Cons v vs)
  obtain product full_path fname where v: "v = (product, full_path, fname)"
    by (cases v) auto
  show ?case
  proof (cases "visit e ex v st")
    case (Inl err')
    with Cons.prems have "err' = err" by simp
    with Inl v have "full_path \<notin> set ex \<and> loader_for e fname full_path = Inl err"
      by (auto simp: visit_def Let_def split: if_splits sum.splits)
    with v show ?thesis by auto
  next
    case (Inr st1)
    with Cons.prems have "for_each (visit e ex) vs st1 = Inl err" by simp
    from Cons.IH [OF this] show ?thesis by (meson list.set_intros(2))
  qed
qed

lemma visits_all_loaded:
  "(\<And>product full_path file. (product, full_path, file) \<in> set vs \<Longrightarrow> full_path \<notin> set ex \<Longrightarrow>
      \<exists>docs. loader_for e file full_path = Inr docs) \<Longrightarrow>
   \<exists>st'. for_each (visit e ex) vs st = Inr st'"
proof (cases "for_each (visit e ex) vs st")
  case (Inl err)
  assume h: "\<And>product full_path file. (product, full_path, file) \<in> set vs \<Longrightarrow> full_path \<notin> set ex \<Longrightarrow>
      \<exists>docs. loader_for e file full_path = Inr docs"
  from visits_failed [OF Inl] h show ?thesis by fastforce
next
  case (Inr st')
  then show ?thesis by simp
qed

section \<open>Properties of the snapshot, the deletions and the batches\<close>

lemma fold_add_source_set:
  "set (fold add_source ds acc) = set acc \<union> {s. \<exists>d\<in>set ds. source_of d = Some s}"
  by (induction ds arbitrary: acc) (auto simp: add_source_def source_of_def split: option.splits)

lemma fold_add_source_distinct:
  "distinct acc \<Longrightarrow> distinct (fold add_source ds acc)"
  by (induction ds arbitrary: acc) (auto simp: add_source_def split: option.splits)

lemma read_existing_sources_distinct: "distinct (read_existing_sources e)"
  by (simp add: read_existing_sources_def fold_add_source_distinct split: option.splits)

lemma read_existing_sources_fresh: "persisted e = None \<Longrightarrow> read_existing_sources e = []"
  by (simp add: read_existing_sources_def)

lemma read_existing_sources_set:
  "persisted e = Some ds \<Longrightarrow> get_ok e \<Longrightarrow>
   set (read_existing_sources e) = {s. \<exists>d\<in>set ds. source_of d = Some s}"
  by (simp add: read_existing_sources_def fold_add_source_set)

lemma fold_delete_calls:
  "calls (fold (delete_source ok) ds b) = calls b @ map Delete ds"
  by (induction ds arbitrary: b) (auto simp: delete_source_def)

lemma fold_delete_removed:
  "removed (fold (delete_source ok) ds b) = removed b @ filter ok ds"
  by (induction ds arbitrary: b) (auto simp: delete_source_def)

lemma fold_delete_not_removed:
  "not_removed (fold (delete_source ok) ds b) = not_removed b @ filter (\<lambda>s. \<not> ok s) ds"
  by (induction ds arbitrary: b) (auto simp: delete_source_def)

lemma fold_delete_store:
  "store (fold (delete_source ok) ds b) =
     filter (\<lambda>d. \<forall>s\<in>set (filter ok ds). source_of d \<noteq> Some s) (store b)"
  by (induction ds arbitrary: b) (auto simp: delete_source_def intro: filter_cong)

lemma fold_add_calls:
  "calls (fold (add_batch docs) is b) =
     calls b @ map (\<lambda>i. AddDocuments (take batch_size (drop i docs))) is"
  by (induction "is" arbitrary: b) (auto simp: add_batch_def Let_def)

lemma fold_add_store:
  "store (fold (add_batch docs) is b) =
     store b @ concat (map (\<lambda>i. take batch_size (drop i docs)) is)"
  by (induction "is" arbitrary: b) (auto simp: add_batch_def Let_def)

lemma fold_add_removed:
  "removed (fold (add_batch docs) is b) = removed b"
  by (induction "is" arbitrary: b) (auto simp: add_batch_def Let_def)

lemma fold_add_not_removed:
  "not_removed (fold (add_batch docs) is b) = not_removed b"
  by (induction "is" arbitrary: b) (auto simp: add_batch_def Let_def)

lemma batches_take:
  "concat (map (\<lambda>k. take s (drop (k * s) xs)) [0 ..< m]) = take (m * s) xs"
proof (induction m)
  case 0
  show ?case by simp
next
  case (Suc m)
  have "take (Suc m * s) xs = take (m * s + s) xs" by (simp add: add.commute)
  also have "\<dots> = take (m * s) xs @ take s (drop (m * s) xs)" by (rule take_add)
  finally show ?case using Suc by simp
qed

lemma range_step_covers:
  fixes n s :: nat
  assumes "0 < s"
  shows "n \<le> ((n + s - 1) div s) * s"
proof -
  define q where "q = (n + s - 1) div s"
  define r where "r = (n + s - 1) mod s"
  have "q * s + r = n + s - 1" by (simp add: q_def r_def)
  moreover have "r < s" using assms by (simp add: r_def)
  ultimately have "n \<le> q * s" using assms by linarith
  then show ?thesis by (simp add: q_def)
qed

lemma batches_concat:
  "0 < s \<Longrightarrow> concat (map (\<lambda>i. take s (drop i xs)) (range_step (length xs) s)) = xs"
  using batches_take [of s xs "(length xs + s - 1) div s"] range_step_covers [of s "length xs"]
  by (simp add: range_step_def comp_def)

lemma range_step_split:
  fixes n s :: nat
  assumes "0 < s"
  shows "(n + s - 1) div s = n div s + (if n mod s = 0 then 0 else 1)"
proof -
  define d where "d = s * (n div s)"
  have n: "d + n mod s = n" by (simp add: d_def)
  have r: "n mod s < s" using assms by simp
  show ?thesis
  proof (cases "n mod s = 0")
    case True
    have "d \<le> n + s - 1" using n True assms by linarith
    then have "s * (n div s) \<le> n + s - 1" by (simp add: d_def)
    moreover have "s * Suc (n div s) = d + s" by (simp add: d_def)
    then have "n + s - 1 < s * Suc (n div s)" using n True assms by linarith
    ultimately have "(n + s - 1) div s = n div s" by (rule div_nat_eqI)
    with True show ?thesis by simp
  next
    case False
    have "s * (n div s + 1) = d + s" by (simp add: d_def)
    then have "s * (n div s + 1) \<le> n + s - 1" using n False by linarith
    moreover have "s * Suc (n div s + 1) = d + s + s" by (simp add: d_def)
    then have "n + s - 1 < s * Suc (n div s + 1)" using n r by linarith
    ultimately have "(n + s - 1) div s = n div s + 1" by (rule div_nat_eqI)
    with False show ?thesis by simp
  qed
qed

lemma batch_lengths:
  assumes "0 < s"
  shows "map (\<lambda>i. length (take s (drop i xs))) (range_step (length xs) s) =
         replicate (length xs div s) s @ (if length xs mod s = 0 then [] else [length xs mod s])"
proof -
  let ?n = "length xs"
  define d where "d = (?n div s) * s"
  have n: "d + ?n mod s = ?n" by (simp add: d_def)
  have full: "min s (?n - k * s) = s" if "k < ?n div s" for k
  proof -
    from that have "Suc k \<le> ?n div s" by simp
    then have "Suc k * s \<le> d" unfolding d_def by (rule mult_le_mono1)
    then have "k * s + s \<le> ?n" using n by simp
    then show ?thesis by simp
  qed
  have last: "?n - (?n div s) * s = ?n mod s"
    by (rule minus_div_mult_eq_mod)
  have "map (\<lambda>k. min s (?n - k * s)) [0 ..< ?n div s] = map (\<lambda>k. s) [0 ..< ?n div s]"
    by (rule map_cong) (auto simp: full)
  then have rep: "map (\<lambda>k. min s (?n - k * s)) [0 ..< ?n div s] = replicate (?n div s) s"
    by (simp add: map_replicate_const)
  have m: "(?n + s - 1) div s = ?n div s + (if ?n mod s = 0 then 0 else 1)"
    by (rule range_step_split [OF assms])
  have r: "min s (?n mod s) = ?n mod s" using assms by simp
  have "map (\<lambda>i. length (take s (drop i xs))) (range_step ?n s) =
        map (\<lambda>k. min s (?n - k * s)) [0 ..< (?n + s - 1) div s]"
    by (simp add: range_step_def comp_def min.commute)
  also have "\<dots> = map (\<lambda>k. min s (?n - k * s))
                      ([0 ..< ?n div s] @ (if ?n mod s = 0 then [] else [?n div s]))"
    unfolding m by simp
  also have "\<dots> = replicate (?n div s) s @ (if ?n mod s = 0 then [] else [?n mod s])"
    using rep last r by simp
  finally show ?thesis .
qed

lemma source_of_stamp: "source_of (stamp product full_path d) = Some full_path"
  by (simp add: source_of_def stamp_def update_conv')

lemma product_of_stamp: "product_of (stamp product full_path d) = Some product"
  by (simp add: product_of_def stamp_def update_conv')

lemma new_docs_origin:
  "d \<in> set (new_docs e ex vs) \<Longrightarrow>
   \<exists>product full_path fname docs d0.
      (product, full_path, fname) \<in> set vs \<and> full_path \<notin> set ex \<and>
      loader_for e fname full_path = Inr docs \<and> d0 \<in> set docs \<and>
      d = stamp product full_path d0"
  unfolding new_docs_def
  by (auto split: if_splits sum.splits) metis

lemma run_scan:
  "run e = Inr r \<Longrightarrow> scan e (read_existing_sources e) = Inr (scanned r)"
  by (auto simp: run_def Let_def split: sum.splits)

lemma run_existing: "run e = Inr r \<Longrightarrow> existing r = read_existing_sources e"
  by (auto simp: run_def Let_def split: sum.splits)

lemma run_deleted_sources:
  "run e = Inr r \<Longrightarrow>
   deleted_sources r = filter (\<lambda>s. s \<notin> set (current_files (scanned r))) (existing r)"
  by (auto simp: run_def Let_def split: sum.splits)

lemma run_printed:
  "run e = Inr r \<Longrightarrow>
   printed r = \<lparr>files_scanned = total_files (scanned r),
      new_files_added =
        (if total_docs (scanned r) > 0
         then length (documents (scanned r)) div max 1 (total_docs (scanned r)) else 0),
      new_documents = total_docs (scanned r),
      files_deleted = length (deleted_sources r),
      files_skipped =
        length (filter (\<lambda>s. s \<in> set (current_files (scanned r))) (existing r))\<rparr>"
  by (auto simp: run_def Let_def split: sum.splits)

lemma run_fresh_deleted: "run e = Inr r \<Longrightarrow> persisted e = None \<Longrightarrow> deleted_sources r = []"
  by (simp add: run_deleted_sources run_existing read_existing_sources_fresh)

lemma deleted_needs_store:
  assumes "run e = Inr r" and "deleted_sources r \<noteq> []"
  shows "\<exists>ds. persisted e = Some ds \<and> ds \<noteq> []"
proof (cases "persisted e")
  case None
  with assms show ?thesis by (simp add: run_fresh_deleted)
next
  case (Some ds)
  have "ds \<noteq> []"
  proof
    assume "ds = []"
    with Some have "read_existing_sources e = []" by (simp add: read_existing_sources_def)
    with assms show False by (simp add: run_deleted_sources run_existing)
  qed
  with Some show ?thesis by simp
qed

lemma run_final:
  assumes "run e = Inr r"
  shows "final r =
     (if persisted e = None
      then (after_deletes e r)\<lparr>store := documents (scanned r),
             calls := calls (after_deletes e r) @ [FromDocuments (documents (scanned r))]\<rparr>
      else fold (add_batch (documents (scanned r)))
             (range_step (length (documents (scanned r))) batch_size) (after_deletes e r))"
proof (cases "persisted e")
  case None
  then have "read_existing_sources e = []" by (rule read_existing_sources_fresh)
  with assms None show ?thesis
    by (auto simp: run_def Let_def after_deletes_def initial_backend_def split: sum.splits)
next
  case (Some ds)
  with assms show ?thesis
    by (auto simp: run_def Let_def after_deletes_def initial_backend_def split: sum.splits)
qed

lemma run_calls:
  assumes "run e = Inr r"
  shows "calls (final r) = map Delete (deleted_sources r) @
     (if persisted e = None then [FromDocuments (documents (scanned r))]
      else map (\<lambda>i. AddDocuments (take batch_size (drop i (documents (scanned r)))))
             (range_step (length (documents (scanned r))) batch_size))"
  by (simp add: run_final [OF assms] after_deletes_def initial_backend_def fold_delete_calls
      fold_add_calls)

lemma run_removed:
  "run e = Inr r \<Longrightarrow> removed (final r) = filter (delete_ok e) (deleted_sources r)"
  by (simp add: run_final after_deletes_def initial_backend_def fold_delete_removed
      fold_add_removed)

lemma run_not_removed:
  "run e = Inr r \<Longrightarrow>
   not_removed (final r) = filter (\<lambda>s. \<not> delete_ok e s) (deleted_sources r)"
  by (simp add: run_final after_deletes_def initial_backend_def fold_delete_not_removed
      fold_add_not_removed)

lemma run_store:
  assumes "run e = Inr r"
  shows "store (final r) =
     (case persisted e of
        None \<Rightarrow> documents (scanned r)
      | Some ds \<Rightarrow>
          filter (\<lambda>d. \<forall>s\<in>set (filter (delete_ok e) (deleted_sources r)).
                       source_of d \<noteq> Some s) ds
          @ documents (scanned r))"
  by (simp add: run_final [OF assms] after_deletes_def initial_backend_def
      fold_delete_store fold_add_store batches_concat batch_size_def split: option.splits)

lemma run_delete_targets:
  assumes "run e = Inr r"
  shows "concat (map delete_target (calls (final r))) = deleted_sources r"
proof -
  have "concat (map delete_target (map Delete ss)) = ss" for ss
    by (induction ss) auto
  then show ?thesis by (simp add: run_calls [OF assms] comp_def)
qed

lemma run_documents:
  assumes "run e = Inr r"
  shows "documents (scanned r) = new_docs e (existing r) (visits (corpus e))"
    and "set (current_files (scanned r)) = (\<lambda>v. fst (snd v)) ` set (visits (corpus e))"
proof -
  have s: "for_each (visit e (existing r)) (visits (corpus e)) init_scan = Inr (scanned r)"
    using run_scan [OF assms] by (simp add: scan_visits run_existing [OF assms])
  show "documents (scanned r) = new_docs e (existing r) (visits (corpus e))"
    using visits_documents [OF s] by (simp add: init_scan_def)
  show "set (current_files (scanned r)) = (\<lambda>v. fst (snd v)) ` set (visits (corpus e))"
    using visits_current_files [OF s] by (simp add: init_scan_def)
qed

lemma run_document_sources:
  assumes "run e = Inr r" and "d \<in> set (documents (scanned r))"
  shows "\<exists>p. source_of d = Some p \<and> p \<in> set (current_files (scanned r)) \<and> p \<notin> set (existing r)"
proof -
  from assms have "d \<in> set (new_docs e (existing r) (visits (corpus e)))"
    by (simp add: run_documents)
  from new_docs_origin [OF this] obtain product full_path fname d0 where
    "(product, full_path, fname) \<in> set (visits (corpus e))" "full_path \<notin> set (existing r)"
    "d = stamp product full_path d0" by blast
  then show ?thesis
    by (force simp: run_documents(2) [OF assms(1)] source_of_stamp)
qed

lemmas run_eval =
  run_def scan_def scan_product_def process_file_def walk_product_dir_def
  read_existing_sources_def add_source_def source_of_def base_directory_def path_join_def
  endswith_def init_scan_def stamp_def delete_source_def range_step_def batch_size_def
  add_batch_def Let_def

lemma sample_run_completes: "\<exists>r. run sample_env = Inr r"
  by (simp add: run_eval sample_env_def sample_corpus_def sample_store_def)

lemma fresh_run_completes: "\<exists>r. run fresh_env = Inr r"
  by (simp add: run_eval fresh_env_def sample_env_def sample_corpus_def sample_store_def)

lemma sample_run_deleted:
  "run sample_env = Inr r \<Longrightarrow>
   deleted_sources r = [''knowledge_docs/sdwan/gone.md'', ''knowledge_docs/sdwan/old.md'']"
  by (auto simp: run_eval sample_env_def sample_corpus_def sample_store_def)

text \<open>
  C10. No delete is issued for a source the scan found on disk: the sources deleted are
  the sources of the snapshot that are not among the current files, so they are
  disjoint from the current files and all come from the snapshot; every delete call
  is for one of them; and when there was no store before the run, no delete call is
  made.
\<close>

theorem C10_deletes_only_sources_gone_from_disk:
  assumes "run e = Inr r"
  shows "existing r = read_existing_sources e \<and>
         deleted_sources r = filter (\<lambda>s. s \<notin> set (current_files (scanned r))) (existing r) \<and>
         concat (map delete_target (calls (final r))) = deleted_sources r \<and>
         set (concat (map delete_target (calls (final r)))) \<inter> set (current_files (scanned r)) = {} \<and>
         set (concat (map delete_target (calls (final r)))) \<subseteq> set (existing r) \<and>
         (persisted e = None \<longrightarrow> concat (map delete_target (calls (final r))) = [])"
  using assms
  by (auto simp: run_existing run_delete_targets read_existing_sources_fresh
      run_deleted_sources [OF assms])

theorem C10_witness:
  "(\<exists>r. run sample_env = Inr r \<and>
        concat (map delete_target (calls (final r))) =
          [''knowledge_docs/sdwan/gone.md'', ''knowledge_docs/sdwan/old.md''] \<and>
        set (concat (map delete_target (calls (final r)))) \<inter> set (current_files (scanned r)) = {} \<and>
        set (concat (map delete_target (calls (final r)))) \<subseteq> set (existing r)) \<and>
   (\<exists>r. run fresh_env = Inr r \<and> persisted fresh_env = None \<and>
        concat (map delete_target (calls (final r))) = [])"
proof -
  obtain r where r: "run sample_env = Inr r" using sample_run_completes by blast
  obtain r' where r': "run fresh_env = Inr r'" using fresh_run_completes by blast
  have f: "persisted fresh_env = None" by (simp add: fresh_env_def)
  show ?thesis
    using C10_deletes_only_sources_gone_from_disk [OF r]
      C10_deletes_only_sources_gone_from_disk [OF r'] r r' f sample_run_deleted [OF r]
    by auto
qed

lemma run_logs:
  assumes "run e = Inr r"
  shows "read_log (scanned r) =
           filter (\<lambda>p. p \<notin> set (existing r)) (map (\<lambda>v. fst (snd v)) (visits (corpus e)))"
    and "skip_log (scanned r) =
           filter (\<lambda>p. p \<in> set (existing r)) (map (\<lambda>v. fst (snd v)) (visits (corpus e)))"
    and "total_files (scanned r) = length (visits (corpus e))"
    and "total_docs (scanned r) = length (documents (scanned r))"
    and "distinct (current_files (scanned r))"
proof -
  have s: "for_each (visit e (existing r)) (visits (corpus e)) init_scan = Inr (scanned r)"
    using run_scan [OF assms] by (simp add: scan_visits run_existing [OF assms])
  show "read_log (scanned r) =
           filter (\<lambda>p. p \<notin> set (existing r)) (map (\<lambda>v. fst (snd v)) (visits (corpus e)))"
    using visits_read_log [OF s] by (simp add: init_scan_def)
  show "skip_log (scanned r) =
           filter (\<lambda>p. p \<in> set (existing r)) (map (\<lambda>v. fst (snd v)) (visits (corpus e)))"
    using visits_skip_log [OF s] by (simp add: init_scan_def)
  show "total_files (scanned r) = length (visits (corpus e))"
    using visits_total_files [OF s] by (simp add: init_scan_def)
  show "total_docs (scanned r) = length (documents (scanned r))"
    using visits_total_docs [OF s] visits_documents [OF s] by (simp add: init_scan_def)
  show "distinct (current_files (scanned r))"
    using visits_current_distinct [OF s] by (simp add: init_scan_def)
qed

lemma run_existing_distinct: "run e = Inr r \<Longrightarrow> distinct (existing r)"
  by (simp add: run_existing read_existing_sources_distinct)

lemma sample_run:
  "\<exists>r. run sample_env = Inr r \<and>
       read_log (scanned r) = [''knowledge_docs/sdwan/a.md'', ''knowledge_docs/sdwan/deep/b.pdf''] \<and>
       skip_log (scanned r) = [''knowledge_docs/sdwan/keep.md''] \<and>
       removed (final r) = [''knowledge_docs/sdwan/old.md''] \<and>
       not_removed (final r) = [''knowledge_docs/sdwan/gone.md''] \<and>
       deleted_sources r = [''knowledge_docs/sdwan/gone.md'', ''knowledge_docs/sdwan/old.md''] \<and>
       printed r = \<lparr>files_scanned = 3, new_files_added = 1, new_documents = 3,
                      files_deleted = 2, files_skipped = 1\<rparr>"
  by (simp add: run_eval sample_env_def sample_corpus_def sample_store_def)

text \<open>
  C5. Every source of the deleted set gets one delete call, filtered by that source,
  whether or not the deletes before it failed: the sources removed are exactly those
  whose delete returned, the others are reported as failed, and after the run the
  backend holds no document whose source is one of the removed ones.
\<close>

theorem C5_every_deletion_attempted:
  assumes "run e = Inr r"
  shows "concat (map delete_target (calls (final r))) = deleted_sources r \<and>
         set (deleted_sources r) = set (existing r) - set (current_files (scanned r)) \<and>
         removed (final r) = filter (delete_ok e) (deleted_sources r) \<and>
         not_removed (final r) = filter (\<lambda>s. \<not> delete_ok e s) (deleted_sources r) \<and>
         (\<forall>d\<in>set (store (final r)). \<forall>s\<in>set (removed (final r)). source_of d \<noteq> Some s)"
proof -
  have rem: "removed (final r) = filter (delete_ok e) (deleted_sources r)"
    by (rule run_removed [OF assms])
  have gone: "source_of d \<noteq> Some s"
    if d: "d \<in> set (store (final r))" and s: "s \<in> set (removed (final r))" for d s
  proof (cases "d \<in> set (documents (scanned r))")
    case True
    from run_document_sources [OF assms True] obtain p where
      p: "source_of d = Some p" "p \<in> set (current_files (scanned r))" by blast
    from s have "s \<notin> set (current_files (scanned r))"
      by (auto simp: rem run_deleted_sources [OF assms])
    with p show ?thesis by auto
  next
    case False
    with d s show ?thesis
      by (auto simp: run_store [OF assms] rem split: option.splits)
  qed
  show ?thesis
    using gone
    by (auto simp: run_delete_targets [OF assms] run_deleted_sources [OF assms]
        run_removed [OF assms] run_not_removed [OF assms])
qed

theorem C5_witness:
  "\<exists>r. run sample_env = Inr r \<and>
       concat (map delete_target (calls (final r))) =
         [''knowledge_docs/sdwan/gone.md'', ''knowledge_docs/sdwan/old.md''] \<and>
       removed (final r) = [''knowledge_docs/sdwan/old.md''] \<and>
       not_removed (final r) = [''knowledge_docs/sdwan/gone.md''] \<and>
       list_all (\<lambda>d. source_of d \<noteq> Some ''knowledge_docs/sdwan/old.md'') (store (final r))"
proof -
  obtain r where r: "run sample_env = Inr r"
    and f: "removed (final r) = [''knowledge_docs/sdwan/old.md'']"
      "not_removed (final r) = [''knowledge_docs/sdwan/gone.md'']"
      "deleted_sources r = [''knowledge_docs/sdwan/gone.md'', ''knowledge_docs/sdwan/old.md'']"
    using sample_run by blast
  show ?thesis
    using C5_every_deletion_attempted [OF r] r f by (auto simp: list_all_iff)
qed

lemma bulk_run:
  "\<exists>r. run bulk_env = Inr r \<and> length (documents (scanned r)) = 12000"
  by (simp add: run_eval bulk_env_def)

lemma bulk_fresh_run:
  "\<exists>r. run bulk_fresh_env = Inr r \<and> length (documents (scanned r)) = 12000"
  by (simp add: run_eval bulk_env_def bulk_fresh_env_def)

lemma run_upserts:
  assumes "run e = Inr r"
  shows "filter is_upsert (calls (final r)) =
     (if persisted e = None then [FromDocuments (documents (scanned r))]
      else map (\<lambda>i. AddDocuments (take batch_size (drop i (documents (scanned r)))))
             (range_step (length (documents (scanned r))) batch_size))"
proof -
  have "filter is_upsert (map Delete ss) = []" for ss by (induction ss) auto
  moreover have "filter is_upsert (map (\<lambda>i. AddDocuments (g i)) ks) = map (\<lambda>i. AddDocuments (g i)) ks"
    for g :: "nat \<Rightarrow> document list" and ks
    by (induction ks) auto
  ultimately show ?thesis by (simp add: run_calls [OF assms])
qed

lemma run_submitted:
  assumes "run e = Inr r"
  shows "concat (map call_documents (calls (final r))) = documents (scanned r)"
proof -
  have "concat (map call_documents (map Delete ss)) = []" for ss by (induction ss) auto
  moreover have "concat (map call_documents (map (\<lambda>i. AddDocuments (g i)) ks)) = concat (map g ks)"
    for g :: "nat \<Rightarrow> document list" and ks
    by (induction ks) auto
  ultimately show ?thesis
    by (simp add: run_calls [OF assms] batches_concat batch_size_def)
qed

text \<open>
  C4, as the code has it. When a store existed before the run, the accumulated
  documents are appended in batches cut from them in order: every batch but the last
  has 5000 documents, the last has what is left, none has more than 5000, and together
  they are the accumulated documents. When no store existed, all accumulated documents
  go into the one call that creates the store.
\<close>

theorem C4_batches_on_existing_store:
  assumes "run e = Inr r"
  shows "(persisted e \<noteq> None \<longrightarrow>
            upsert_sizes r =
              replicate (length (documents (scanned r)) div 5000) 5000 @
              (if length (documents (scanned r)) mod 5000 = 0 then []
               else [length (documents (scanned r)) mod 5000]) \<and>
            list_all (\<lambda>n. n \<le> 5000) (upsert_sizes r) \<and>
            list_all (\<lambda>c. c \<noteq> FromDocuments (call_documents c)) (calls (final r))) \<and>
         (persisted e = None \<longrightarrow>
            filter is_upsert (calls (final r)) = [FromDocuments (documents (scanned r))]) \<and>
         concat (map call_documents (calls (final r))) = documents (scanned r)"
proof -
  let ?docs = "documents (scanned r)"
  have sizes: "upsert_sizes r =
       replicate (length ?docs div 5000) 5000 @
       (if length ?docs mod 5000 = 0 then [] else [length ?docs mod 5000])"
    if "persisted e \<noteq> None"
  proof -
    have u: "filter is_upsert (calls (final r)) =
        map (\<lambda>i. AddDocuments (take 5000 (drop i ?docs))) (range_step (length ?docs) 5000)"
      using that by (auto simp: run_upserts [OF assms] batch_size_def)
    have "upsert_sizes r =
        map (\<lambda>i. length (take 5000 (drop i ?docs))) (range_step (length ?docs) 5000)"
      unfolding upsert_sizes_def u by (simp add: comp_def)
    also have "\<dots> = replicate (length ?docs div 5000) 5000 @
       (if length ?docs mod 5000 = 0 then [] else [length ?docs mod 5000])"
      by (rule batch_lengths) simp
    finally show ?thesis .
  qed
  have bound: "list_all (\<lambda>n. n \<le> 5000) (upsert_sizes r)" if "persisted e \<noteq> None"
  proof -
    have "length ?docs mod 5000 \<le> 5000" by simp
    then show ?thesis by (simp add: sizes [OF that] list_all_iff)
  qed
  have adds: "list_all (\<lambda>c. c \<noteq> FromDocuments (call_documents c)) (calls (final r))"
    if "persisted e \<noteq> None"
    using that by (auto simp: run_calls [OF assms] list_all_iff)
  show ?thesis
    using sizes bound adds
    by (simp add: run_upserts [OF assms] run_submitted [OF assms])
qed

theorem C4_witness:
  "(\<exists>r. run bulk_env = Inr r \<and> persisted bulk_env \<noteq> None \<and>
        upsert_sizes r = [5000, 5000, 2000] \<and> list_all (\<lambda>n. n \<le> 5000) (upsert_sizes r)) \<and>
   (\<exists>r. run bulk_fresh_env = Inr r \<and> persisted bulk_fresh_env = None \<and>
        filter is_upsert (calls (final r)) = [FromDocuments (documents (scanned r))])"
proof -
  obtain r where r: "run bulk_env = Inr r" and n: "length (documents (scanned r)) = 12000"
    using bulk_run by blast
  obtain r' where r': "run bulk_fresh_env = Inr r'"
    using bulk_fresh_run by blast
  have p: "persisted bulk_env \<noteq> None" by (simp add: bulk_env_def)
  have p': "persisted bulk_fresh_env = None" by (simp add: bulk_fresh_env_def)
  have "replicate (12000 div 5000) (5000::nat) = [5000, 5000]"
    by (simp add: numeral_2_eq_2)
  then have "upsert_sizes r = [5000, 5000, 2000] \<and> list_all (\<lambda>n. n \<le> 5000) (upsert_sizes r)"
    using C4_batches_on_existing_store [OF r] p n by simp
  moreover have "filter is_upsert (calls (final r')) = [FromDocuments (documents (scanned r'))]"
    using C4_batches_on_existing_store [OF r'] p' by simp
  ultimately show ?thesis using r r' p p' by blast
qed

theorem C4_counterexample:
  "on_result upsert_sizes (run bulk_fresh_env) = Some [12000]"
  by (simp add: on_result_def upsert_sizes_def run_eval bulk_env_def bulk_fresh_env_def)

lemma ten_files_visit:
  "(''docs'', ''knowledge_docs/docs/f3.md'', ''f3.md'') \<in> set (visits (corpus ten_files_env)) \<and>
   ''knowledge_docs/docs/f3.md'' \<notin> set (read_existing_sources ten_files_env) \<and>
   loader_for ten_files_env ''f3.md'' ''knowledge_docs/docs/f3.md'' =
     Inl (LoadError ''knowledge_docs/docs/f3.md'')"
  by (simp add: visits_def scan_entries_def product_entries_def walk_product_dir_def
      recognised_def endswith_def path_join_def base_directory_def loader_for_def
      read_existing_sources_def ten_files_env_def)

text \<open>
  C2, as the code has it. The call of the loader is not guarded: when the loader fails
  on a file that is new, the run stops with the error of the first such file, so it
  does not complete and prints no report.
\<close>

theorem C2_load_failure_stops_the_run:
  assumes "(product, full_path, fname) \<in> set (visits (corpus e))"
    and "full_path \<notin> set (read_existing_sources e)"
    and "loader_for e fname full_path = Inl err"
  shows "\<exists>product' full_path' fname' err'.
           run e = Inl err' \<and>
           (product', full_path', fname') \<in> set (visits (corpus e)) \<and>
           full_path' \<notin> set (read_existing_sources e) \<and>
           loader_for e fname' full_path' = Inl err'"
proof (cases "scan e (read_existing_sources e)")
  case (Inl err')
  then have "run e = Inl err'" by (simp add: run_def Let_def)
  moreover from Inl have
    "for_each (visit e (read_existing_sources e)) (visits (corpus e)) init_scan = Inl err'"
    by (simp add: scan_visits)
  from visits_failed [OF this] obtain product' full_path' fname' where
    "(product', full_path', fname') \<in> set (visits (corpus e))"
    "full_path' \<notin> set (read_existing_sources e)"
    "loader_for e fname' full_path' = Inl err'" by blast
  ultimately show ?thesis by blast
next
  case (Inr st)
  then have "for_each (visit e (read_existing_sources e)) (visits (corpus e)) init_scan = Inr st"
    by (simp add: scan_visits)
  from visits_loaded [OF this assms(1) assms(2)] assms(3) show ?thesis by simp
qed

theorem C2_witness:
  "\<exists>product' full_path' fname' err'.
     run ten_files_env = Inl err' \<and>
     (product', full_path', fname') \<in> set (visits (corpus ten_files_env)) \<and>
     full_path' \<notin> set (read_existing_sources ten_files_env) \<and>
     loader_for ten_files_env fname' full_path' = Inl err'"
  using ten_files_visit
    C2_load_failure_stops_the_run [of "''docs''" "''knowledge_docs/docs/f3.md''" "''f3.md''"
      ten_files_env "LoadError ''knowledge_docs/docs/f3.md''"]
  by blast

theorem C2_counterexample:
  "run ten_files_env = Inl (LoadError ''knowledge_docs/docs/f3.md'')"
  by (simp add: run_eval ten_files_env_def)

text \<open>
  C8, as the code has it. Of a run that completes: the count of new documents is the
  number of documents handed to the backend; the count of deleted files is the size of
  the deleted set, that is the number of delete calls issued, returned or failed; the
  count of skipped files is the number of sources that are both on disk and in the
  snapshot; and the count of scanned files is the number of distinct recognised files
  the scan found below the product directories when it met none of them twice.
\<close>

theorem C8_report_counts:
  assumes "run e = Inr r"
  shows "new_documents (printed r) = length (concat (map call_documents (calls (final r)))) \<and>
         files_deleted (printed r) = card (set (existing r) - set (current_files (scanned r))) \<and>
         files_deleted (printed r) = length (concat (map delete_target (calls (final r)))) \<and>
         files_deleted (printed r) = length (removed (final r)) + length (not_removed (final r)) \<and>
         files_skipped (printed r) = card (set (current_files (scanned r)) \<inter> set (existing r)) \<and>
         (distinct (map (\<lambda>v. fst (snd v)) (visits (corpus e))) \<longrightarrow>
            files_scanned (printed r) = card (set (current_files (scanned r))))"
proof -
  have ex: "distinct (existing r)" by (rule run_existing_distinct [OF assms])
  have p: "new_documents (printed r) = total_docs (scanned r)"
    "files_deleted (printed r) = length (deleted_sources r)"
    "files_scanned (printed r) = total_files (scanned r)"
    "files_skipped (printed r) =
       length (filter (\<lambda>s. s \<in> set (current_files (scanned r))) (existing r))"
    by (simp_all add: run_printed [OF assms])
  have new: "new_documents (printed r) = length (concat (map call_documents (calls (final r))))"
    by (simp only: p run_logs(4) [OF assms] run_submitted [OF assms])
  have "distinct (deleted_sources r)"
    using ex by (simp add: run_deleted_sources [OF assms])
  then have "length (deleted_sources r) = card (set (deleted_sources r))"
    by (rule distinct_card [symmetric])
  also have "set (deleted_sources r) = set (existing r) - set (current_files (scanned r))"
    by (auto simp: run_deleted_sources [OF assms])
  finally have del: "files_deleted (printed r) =
      card (set (existing r) - set (current_files (scanned r)))"
    by (simp only: p)
  have calls: "files_deleted (printed r) = length (concat (map delete_target (calls (final r))))"
    by (simp only: p run_delete_targets [OF assms])
  have "length (filter (delete_ok e) (deleted_sources r)) +
        length (filter (\<lambda>s. \<not> delete_ok e s) (deleted_sources r)) = length (deleted_sources r)"
    by (rule sum_length_filter_compl)
  then have split: "files_deleted (printed r) =
      length (removed (final r)) + length (not_removed (final r))"
    by (simp add: p run_removed [OF assms] run_not_removed [OF assms])
  have "distinct (filter (\<lambda>s. s \<in> set (current_files (scanned r))) (existing r))"
    using ex by simp
  then have "length (filter (\<lambda>s. s \<in> set (current_files (scanned r))) (existing r)) =
      card (set (filter (\<lambda>s. s \<in> set (current_files (scanned r))) (existing r)))"
    by (rule distinct_card [symmetric])
  also have "set (filter (\<lambda>s. s \<in> set (current_files (scanned r))) (existing r)) =
      set (current_files (scanned r)) \<inter> set (existing r)"
    by auto
  finally have skip: "files_skipped (printed r) =
      card (set (current_files (scanned r)) \<inter> set (existing r))"
    by (simp only: p)
  have scan: "files_scanned (printed r) = length (visits (corpus e))"
    by (simp only: p run_logs(3) [OF assms])
  have once: "files_scanned (printed r) = card (set (current_files (scanned r)))"
    if "distinct (map (\<lambda>v. fst (snd v)) (visits (corpus e)))"
  proof -
    have "card (set (map (\<lambda>v. fst (snd v)) (visits (corpus e)))) =
        length (map (\<lambda>v. fst (snd v)) (visits (corpus e)))"
      using that by (rule distinct_card)
    then show ?thesis
      by (simp add: scan run_documents(2) [OF assms])
  qed
  from new del calls split skip once show ?thesis by blast
qed

theorem C8_witness:
  "\<exists>r. run sample_env = Inr r \<and>
       distinct (map (\<lambda>v. fst (snd v)) (visits (corpus sample_env))) \<and>
       new_documents (printed r) = length (concat (map call_documents (calls (final r)))) \<and>
       files_deleted (printed r) = card (set (existing r) - set (current_files (scanned r))) \<and>
       files_deleted (printed r) = length (removed (final r)) + length (not_removed (final r)) \<and>
       files_skipped (printed r) = card (set (current_files (scanned r)) \<inter> set (existing r)) \<and>
       files_scanned (printed r) = card (set (current_files (scanned r))) \<and>
       printed r = \<lparr>files_scanned = 3, new_files_added = 1, new_documents = 3,
                      files_deleted = 2, files_skipped = 1\<rparr>"
proof -
  obtain r where r: "run sample_env = Inr r"
    and f: "printed r = \<lparr>files_scanned = 3, new_files_added = 1, new_documents = 3,
                      files_deleted = 2, files_skipped = 1\<rparr>"
    using sample_run by blast
  have d: "distinct (map (\<lambda>v. fst (snd v)) (visits (corpus sample_env)))"
    by (simp add: visits_def scan_entries_def product_entries_def walk_product_dir_def
      recognised_def endswith_def path_join_def base_directory_def sample_env_def
      sample_corpus_def)
  from C8_report_counts [OF r] d r f show ?thesis by blast
qed

theorem C8_counterexample:
  "on_result (files_deleted \<circ> printed) (run sample_env) = Some 2 \<and>
   on_result (length \<circ> removed \<circ> final) (run sample_env) = Some 1"
  by (simp add: on_result_def run_eval sample_env_def sample_corpus_def sample_store_def)

text \<open>
  C1. On this input the backend receives one document, the whole text of the file with
  its 1202 characters, whatever the splitter returns: the chunks are only counted for
  the message \<^verbatim>\<open>created n chunks\<close>.
\<close>

theorem C1_unsplit_document_is_upserted:
  "on_result (calls \<circ> final) (run (chunk_env splitter)) =
     Some [FromDocuments
             [\<lparr>page_content = long_text,
               metadata = [(''source'', ''knowledge_docs/sdwan/a.md''), (''product'', ''sdwan'')]\<rparr>]] \<and>
   on_result (chunk_log \<circ> scanned) (run (chunk_env splitter)) =
     Some [length (splitter 1000 100
             [\<lparr>page_content = long_text,
               metadata = [(''source'', ''knowledge_docs/sdwan/a.md'')]\<rparr>])] \<and>
   length long_text = 1202"
  by (simp add: on_result_def run_eval chunk_env_def) (simp add: long_text_def)

text \<open>
  C9. On this input the walk of the base directory reaches \<open>A\<close>, whose subdirectory
  \<open>B\<close> is joined to the base directory again: the product directory \<open>B\<close> is walked
  twice, its file is counted twice, loaded twice and its document is submitted twice,
  while the set of current files holds its path once.
\<close>

theorem C9_file_counted_and_loaded_twice:
  "on_result (files_scanned \<circ> printed) (run nested_env) = Some 2 \<and>
   on_result (read_log \<circ> scanned) (run nested_env) =
     Some [''knowledge_docs/B/x.md'', ''knowledge_docs/B/x.md''] \<and>
   on_result (current_files \<circ> scanned) (run nested_env) = Some [''knowledge_docs/B/x.md''] \<and>
   on_result (map source_of \<circ> store \<circ> final) (run nested_env) =
     Some [Some ''knowledge_docs/B/x.md'', Some ''knowledge_docs/B/x.md'']"
  by (simp add: on_result_def run_eval nested_env_def)

lemma os_walk_paths:
  "(r, dirs, files) \<in> set (os_walk root t) \<Longrightarrow> f \<in> set files \<Longrightarrow>
   path_join r f \<in> set (tree_paths root t)"
proof (induction root t arbitrary: r dirs files rule: os_walk.induct)
  case (1 root fs ds)
  from "1.prems"(1) consider "(r, dirs, files) = (root, map fst ds, fs)"
    | n t where "(n, t) \<in> set ds" "(r, dirs, files) \<in> set (os_walk (path_join root n) t)"
    by auto
  then show ?case
  proof cases
    case 1
    with "1.prems"(2) show ?thesis by auto
  next
    case 2
    from "1.IH" [OF 2(1) refl 2(2) "1.prems"(2)] 2(1) show ?thesis by auto
  qed
qed

lemma join_valid:
  "valid_name n \<Longrightarrow> root \<noteq> [] \<Longrightarrow> last root \<noteq> CHR ''/'' \<Longrightarrow>
   path_join root n = root @ ''/'' @ n"
  by (cases n) (auto simp: path_join_def valid_name_def)

lemma join_valid_last:
  assumes "valid_name n" "root \<noteq> []" "last root \<noteq> CHR ''/''"
  shows "path_join root n \<noteq> []" and "last (path_join root n) \<noteq> CHR ''/''"
proof -
  from assms(1) have "n \<noteq> []" "last n \<in> set n" "CHR ''/'' \<notin> set n"
    by (simp_all add: valid_name_def)
  then have "last n \<noteq> CHR ''/''" by metis
  with \<open>n \<noteq> []\<close> show "path_join root n \<noteq> []" and "last (path_join root n) \<noteq> CHR ''/''"
    by (simp_all add: join_valid [OF assms])
qed

lemma tree_paths_prefix:
  "names_ok t \<Longrightarrow> root \<noteq> [] \<Longrightarrow> last root \<noteq> CHR ''/'' \<Longrightarrow>
   p \<in> set (tree_paths root t) \<Longrightarrow> \<exists>rest. p = root @ ''/'' @ rest"
proof (induction root t arbitrary: p rule: tree_paths.induct)
  case (1 root fs ds)
  from "1.prems"(4) consider f where "f \<in> set fs" "p = path_join root f"
    | n t where "(n, t) \<in> set ds" "p \<in> set (tree_paths (path_join root n) t)"
    by auto
  then show ?case
  proof cases
    case 1
    with "1.prems" have "valid_name f" by auto
    with 1 "1.prems" show ?thesis by (simp add: join_valid)
  next
    case 2
    with "1.prems" have n: "valid_name n" and t: "names_ok t" by auto
    have j: "path_join root n = root @ ''/'' @ n"
      using n "1.prems" by (simp add: join_valid)
    have "path_join root n \<noteq> []" "last (path_join root n) \<noteq> CHR ''/''"
      using n "1.prems" by (simp_all add: join_valid_last)
    from "1.IH" [OF 2(1) refl t this 2(2)] obtain rest where
      "p = path_join root n @ ''/'' @ rest" by blast
    then show ?thesis by (simp add: j)
  qed
qed

lemma name_before_slash:
  assumes "valid_name x" "valid_name y" "x @ ''/'' @ r1 = y @ ''/'' @ r2"
  shows "x = y"
proof -
  have "takeWhile (\<lambda>c. c \<noteq> CHR ''/'') (x @ ''/'' @ r1) = x"
    using assms(1) by (subst takeWhile_append2) (auto simp: valid_name_def)
  moreover have "takeWhile (\<lambda>c. c \<noteq> CHR ''/'') (y @ ''/'' @ r2) = y"
    using assms(2) by (subst takeWhile_append2) (auto simp: valid_name_def)
  ultimately show ?thesis using assms(3) by simp
qed

lemma product_determined:
  assumes ok: "names_ok c"
    and x: "(x, t) \<in> set (dir_subdirs c)" "p \<in> set (tree_paths (path_join base_directory x) t)"
    and y: "(y, t') \<in> set (dir_subdirs c)" "p \<in> set (tree_paths (path_join base_directory y) t')"
  shows "x = y"
proof -
  obtain fs ds where c: "c = Dirtree fs ds" by (cases c)
  from ok x(1) y(1) have v: "valid_name x" "names_ok t" "valid_name y" "names_ok t'"
    by (auto simp: c)
  have b: "base_directory \<noteq> []" "last base_directory \<noteq> CHR ''/''"
    by (simp_all add: base_directory_def)
  have jx: "path_join base_directory x = base_directory @ ''/'' @ x"
    and jy: "path_join base_directory y = base_directory @ ''/'' @ y"
    using v b by (simp_all add: join_valid)
  have "path_join base_directory x \<noteq> []" "last (path_join base_directory x) \<noteq> CHR ''/''"
    using v(1) b by (simp_all add: join_valid_last)
  from tree_paths_prefix [OF v(2) this x(2)] obtain r1 where
    r1: "p = path_join base_directory x @ ''/'' @ r1" by blast
  have "path_join base_directory y \<noteq> []" "last (path_join base_directory y) \<noteq> CHR ''/''"
    using v(3) b by (simp_all add: join_valid_last)
  from tree_paths_prefix [OF v(4) this y(2)] obtain r2 where
    r2: "p = path_join base_directory y @ ''/'' @ r2" by blast
  from r1 r2 have "x @ ''/'' @ r1 = y @ ''/'' @ r2" by (simp add: jx jy)
  from name_before_slash [OF v(1) v(3) this] show ?thesis .
qed

lemma visits_under_product:
  assumes "(product, full_path, fname) \<in> set (visits c)"
  shows "\<exists>t. (product, t) \<in> set (dir_subdirs c) \<and>
             full_path \<in> set (tree_paths (path_join base_directory product) t)"
proof -
  from assms obtain product_root where
    e: "(product, product_root, fname) \<in> set (scan_entries c)"
    and p: "full_path = path_join product_root fname"
    by (auto simp: visits_def)
  from e obtain dir where "(product, product_root, fname) \<in> set (product_entries c dir)"
    by (auto simp: scan_entries_def)
  moreover from this have "dir = product"
    by (auto simp: product_entries_def)
  ultimately have "(product, product_root, fname) \<in> set (product_entries c product)"
    by simp
  then obtain t dirs files where
    t: "map_of (dir_subdirs c) product = Some t"
    and w: "(product_root, dirs, files) \<in> set (os_walk (path_join base_directory product) t)"
    and f: "fname \<in> set files"
    by (auto simp: product_entries_def walk_product_dir_def split: option.splits) metis
  from os_walk_paths [OF w f] map_of_SomeD [OF t] p show ?thesis by blast
qed

lemma run_submitted_origin:
  assumes "run e = Inr r" and "d \<in> set (concat (map call_documents (calls (final r))))"
  shows "\<exists>product full_path fname docs d0.
           (product, full_path, fname) \<in> set (visits (corpus e)) \<and>
           loader_for e fname full_path = Inr docs \<and> d0 \<in> set docs \<and>
           d = stamp product full_path d0 \<and>
           product_of d = Some product \<and> source_of d = Some full_path"
proof -
  from assms have "d \<in> set (new_docs e (existing r) (visits (corpus e)))"
    by (simp add: run_submitted run_documents(1))
  from new_docs_origin [OF this] obtain product full_path fname docs d0 where
    "(product, full_path, fname) \<in> set (visits (corpus e))"
    "loader_for e fname full_path = Inr docs" "d0 \<in> set docs"
    "d = stamp product full_path d0" by blast
  moreover from this have "product_of d = Some product" "source_of d = Some full_path"
    by (simp_all add: source_of_stamp product_of_stamp)
  ultimately show ?thesis by blast
qed

text \<open>
  What the run submits, for reference: every document handed to the backend is a
  document the loader returned for a recognised file below a product directory, with
  the path of that file written as source and the name of that product directory as
  product; the path lies below no other product directory, and two submitted
  documents with the same source carry the same product.
\<close>

lemma submitted_documents_stamped:
  assumes "run e = Inr r"
    and "names_ok (corpus e)"
    and "d \<in> set (concat (map call_documents (calls (final r))))"
  shows "\<exists>product t full_path fname docs d0.
           (product, t) \<in> set (dir_subdirs (corpus e)) \<and>
           full_path \<in> set (tree_paths (path_join base_directory product) t) \<and>
           loader_for e fname full_path = Inr docs \<and> d0 \<in> set docs \<and>
           d = stamp product full_path d0 \<and>
           product_of d = Some product \<and> source_of d = Some full_path \<and>
           (\<forall>product' t'. (product', t') \<in> set (dir_subdirs (corpus e)) \<and>
               full_path \<in> set (tree_paths (path_join base_directory product') t')
               \<longrightarrow> product' = product) \<and>
           (\<forall>d'\<in>set (concat (map call_documents (calls (final r)))).
               source_of d' = source_of d \<longrightarrow> product_of d' = product_of d)"
proof -
  from run_submitted_origin [OF assms(1) assms(3)] obtain product full_path fname docs d0 where
    v: "(product, full_path, fname) \<in> set (visits (corpus e))"
    and l: "loader_for e fname full_path = Inr docs" "d0 \<in> set docs"
      "d = stamp product full_path d0"
    and m: "product_of d = Some product" "source_of d = Some full_path" by blast
  from visits_under_product [OF v] obtain t where
    t: "(product, t) \<in> set (dir_subdirs (corpus e))"
       "full_path \<in> set (tree_paths (path_join base_directory product) t)" by blast
  have only: "product' = product"
    if "(product', t') \<in> set (dir_subdirs (corpus e))"
       "full_path \<in> set (tree_paths (path_join base_directory product') t')" for product' t'
    using product_determined [OF assms(2) that t] .
  have same: "product_of d' = product_of d"
    if d': "d' \<in> set (concat (map call_documents (calls (final r))))"
      and s: "source_of d' = source_of d" for d'
  proof -
    from run_submitted_origin [OF assms(1) d'] obtain product' full_path' fname' where
      v': "(product', full_path', fname') \<in> set (visits (corpus e))"
      and m': "product_of d' = Some product'" "source_of d' = Some full_path'" by blast
    from s m m' have "full_path' = full_path" by simp
    with visits_under_product [OF v'] obtain t' where
      "(product', t') \<in> set (dir_subdirs (corpus e))"
      "full_path \<in> set (tree_paths (path_join base_directory product') t')" by blast
    from only [OF this] m m' show ?thesis by simp
  qed
  from t l m only same show ?thesis by blast
qed

lemma scan_completes_run:
  "scan e (read_existing_sources e) = Inr st \<Longrightarrow> \<exists>r. run e = Inr r"
  by (simp add: run_def Let_def)

lemma new_docs_member:
  "(product, full_path, fname) \<in> set vs \<Longrightarrow> full_path \<notin> set ex \<Longrightarrow>
   loader_for e fname full_path = Inr docs \<Longrightarrow> d0 \<in> set docs \<Longrightarrow>
   stamp product full_path d0 \<in> set (new_docs e ex vs)"
  unfolding new_docs_def by force

lemma new_docs_empty:
  "(\<And>product full_path fname. (product, full_path, fname) \<in> set vs \<Longrightarrow>
      full_path \<notin> set ex \<Longrightarrow> loader_for e fname full_path = Inr []) \<Longrightarrow>
   new_docs e ex vs = []"
  unfolding new_docs_def by (auto split: sum.splits)

lemma rerun_env_simps:
  "corpus (rerun_env e r) = corpus e"
  "persisted (rerun_env e r) = Some (store (final r))"
  "get_ok (rerun_env e r) = get_ok e"
  "delete_ok (rerun_env e r) = delete_ok e"
  "loader_for (rerun_env e r) = loader_for e"
  by (simp_all add: rerun_env_def loader_for_def fun_eq_iff)

lemma healthy_run:
  "\<exists>r. run healthy_env = Inr r \<and> not_removed (final r) = []"
  by (simp add: run_eval healthy_env_def sample_env_def sample_corpus_def sample_store_def)

lemma healthy_loaders:
  "get_ok healthy_env \<and> loader_for healthy_env fname full_path \<noteq> Inr []"
  by (simp add: healthy_env_def sample_env_def loader_for_def)

lemma first_run_store_sources:
  assumes r1: "run e = Inr r1" and ok: "get_ok e" and nf: "not_removed (final r1) = []"
  shows "{s. \<exists>d\<in>set (store (final r1)). source_of d = Some s} =
         (set (existing r1) \<inter> set (current_files (scanned r1))) \<union>
         {s. \<exists>d\<in>set (documents (scanned r1)). source_of d = Some s}"
proof (cases "persisted e")
  case None
  then have "existing r1 = []"
    by (simp add: run_existing [OF r1] read_existing_sources_fresh)
  with None show ?thesis by (simp add: run_store [OF r1])
next
  case (Some ds)
  have ex: "set (existing r1) = {s. \<exists>d\<in>set ds. source_of d = Some s}"
    by (simp add: run_existing [OF r1] read_existing_sources_set [OF Some ok])
  have all: "filter (delete_ok e) (deleted_sources r1) = deleted_sources r1"
    using nf by (simp add: run_not_removed [OF r1] filter_empty_conv)
  have st: "store (final r1) =
      filter (\<lambda>d. \<forall>s\<in>set (deleted_sources r1). source_of d \<noteq> Some s) ds @ documents (scanned r1)"
    by (simp add: run_store [OF r1] Some all)
  have del: "set (deleted_sources r1) = set (existing r1) - set (current_files (scanned r1))"
    by (auto simp: run_deleted_sources [OF r1])
  show ?thesis
    unfolding st del ex by auto
qed

lemma healthy_paths:
  "(\<lambda>v. fst (snd v)) ` set (visits (corpus healthy_env)) =
     {''knowledge_docs/sdwan/a.md'', ''knowledge_docs/sdwan/keep.md'',
      ''knowledge_docs/sdwan/deep/b.pdf''}"
  by (simp add: visits_def scan_entries_def product_entries_def walk_product_dir_def
      recognised_def endswith_def path_join_def base_directory_def healthy_env_def
      sample_env_def sample_corpus_def)

text \<open>
  C6, as the code has it. Take a run that completed with a readable snapshot and no
  failed deletion, and run again on the same corpus with the store the first run left.
  The second run completes, makes no call on the backend at all and leaves the store
  as it was; it reports no new document, no new file and no deleted file, and the
  number of skipped files it reports is the number of sources in the store, all of
  them on disk. When no loader returns an empty list for a file of the corpus, that
  number is the number of recognised files the scan finds. Without the two conditions
  the second run writes: a snapshot that cannot be read makes every file new again,
  and a delete that failed is issued again.
\<close>

theorem C6_second_run_is_idle:
  assumes r1: "run e = Inr r1" and ok: "get_ok e" and nf: "not_removed (final r1) = []"
  shows "\<exists>r2. run (rerun_env e r1) = Inr r2 \<and>
           calls (final r2) = [] \<and> store (final r2) = store (final r1) \<and>
           new_documents (printed r2) = 0 \<and> new_files_added (printed r2) = 0 \<and>
           files_deleted (printed r2) = 0 \<and>
           files_skipped (printed r2) = length (existing r2) \<and>
           set (existing r2) \<subseteq> set (current_files (scanned r2)) \<and>
           ((\<forall>v\<in>set (visits (corpus e)). loader_for e (snd (snd v)) (fst (snd v)) \<noteq> Inr [])
              \<longrightarrow> files_skipped (printed r2) = card (set (current_files (scanned r2))))"
proof -
  let ?e2 = "rerun_env e r1"
  let ?vs = "visits (corpus e)"
  let ?ex2 = "read_existing_sources ?e2"
  let ?cur = "(\<lambda>v. fst (snd v)) ` set ?vs"
  have cur1: "set (current_files (scanned r1)) = ?cur"
    by (rule run_documents(2) [OF r1])
  have docs1: "documents (scanned r1) = new_docs e (existing r1) ?vs"
    by (rule run_documents(1) [OF r1])
  have scan1: "for_each (visit e (existing r1)) ?vs init_scan = Inr (scanned r1)"
    using run_scan [OF r1] by (simp add: scan_visits run_existing [OF r1])
  have ex2: "set ?ex2 =
      (set (existing r1) \<inter> ?cur) \<union> {s. \<exists>d\<in>set (documents (scanned r1)). source_of d = Some s}"
    using first_run_store_sources [OF r1 ok nf]
    by (simp add: read_existing_sources_set [of ?e2 "store (final r1)"] rerun_env_simps ok cur1)
  have sub: "set ?ex2 \<subseteq> ?cur"
  proof
    fix s assume "s \<in> set ?ex2"
    then consider "s \<in> ?cur"
      | d where "d \<in> set (documents (scanned r1))" "source_of d = Some s"
      unfolding ex2 by blast
    then show "s \<in> ?cur"
    proof cases
      case 1
      then show ?thesis .
    next
      case 2
      from run_document_sources [OF r1 2(1)] 2(2) show ?thesis by (simp add: cur1)
    qed
  qed
  have empty: "loader_for e fname full_path = Inr []"
    if v: "(product, full_path, fname) \<in> set ?vs" and n: "full_path \<notin> set ?ex2"
    for product full_path fname
  proof -
    from v have "full_path \<in> ?cur" by force
    with n have n1: "full_path \<notin> set (existing r1)" by (auto simp: ex2)
    from visits_loaded [OF scan1 v n1] obtain docs where
      l: "loader_for e fname full_path = Inr docs" by blast
    have "docs = []"
    proof (rule ccontr)
      assume "docs \<noteq> []"
      then obtain d0 where "d0 \<in> set docs" by (cases docs) auto
      from new_docs_member [OF v n1 l this]
      have "stamp product full_path d0 \<in> set (documents (scanned r1))" by (simp add: docs1)
      then have "full_path \<in> set ?ex2"
        unfolding ex2 using source_of_stamp [of product full_path d0] by blast
      with n show False by simp
    qed
    with l show ?thesis by simp
  qed
  have "\<exists>st2. for_each (visit ?e2 ?ex2) ?vs init_scan = Inr st2"
    by (rule visits_all_loaded) (simp add: rerun_env_simps empty)
  then obtain st2 where "scan ?e2 ?ex2 = Inr st2"
    by (auto simp: scan_visits rerun_env_simps)
  from scan_completes_run [OF this] obtain r2 where r2: "run ?e2 = Inr r2" by blast
  have e2: "existing r2 = ?ex2" by (rule run_existing [OF r2])
  have cur2: "set (current_files (scanned r2)) = ?cur"
    using run_documents(2) [OF r2] by (simp add: rerun_env_simps)
  have "documents (scanned r2) = new_docs ?e2 ?ex2 ?vs"
    using run_documents(1) [OF r2] by (simp add: rerun_env_simps e2)
  also have "\<dots> = []"
    by (rule new_docs_empty) (simp add: rerun_env_simps empty)
  finally have nodocs: "documents (scanned r2) = []" .
  have nodel: "deleted_sources r2 = []"
    using sub by (auto simp: run_deleted_sources [OF r2] e2 cur2 filter_empty_conv)
  have allskip: "filter (\<lambda>s. s \<in> set (current_files (scanned r2))) (existing r2) = existing r2"
    using sub by (auto simp: e2 cur2 filter_id_conv)
  have calls: "calls (final r2) = []"
    by (simp add: run_calls [OF r2] nodel nodocs rerun_env_simps range_step_def batch_size_def)
  have store: "store (final r2) = store (final r1)"
    by (simp add: run_store [OF r2] nodel nodocs rerun_env_simps)
  have rep: "new_documents (printed r2) = 0" "new_files_added (printed r2) = 0"
    "files_deleted (printed r2) = 0" "files_skipped (printed r2) = length (existing r2)"
    using run_logs(4) [OF r2]
    by (simp_all add: run_printed [OF r2] nodel nodocs allskip)
  have full: "files_skipped (printed r2) = card (set (current_files (scanned r2)))"
    if h: "\<forall>v\<in>set ?vs. loader_for e (snd (snd v)) (fst (snd v)) \<noteq> Inr []"
  proof -
    have "?cur \<subseteq> set ?ex2"
    proof
      fix p assume "p \<in> ?cur"
      then obtain product fname where v: "(product, p, fname) \<in> set ?vs" by force
      show "p \<in> set ?ex2"
      proof (rule ccontr)
        assume "p \<notin> set ?ex2"
        from empty [OF v this] h v show False by force
      qed
    qed
    with sub have "set (existing r2) = set (current_files (scanned r2))"
      by (simp add: e2 cur2)
    moreover have "length (existing r2) = card (set (existing r2))"
      using run_existing_distinct [OF r2] by (rule distinct_card [symmetric])
    ultimately show ?thesis by (simp add: rep)
  qed
  from sub have "set (existing r2) \<subseteq> set (current_files (scanned r2))"
    by (simp add: e2 cur2)
  with r2 calls store rep full show ?thesis by blast
qed

theorem C6_witness:
  "\<exists>r1 r2. run healthy_env = Inr r1 \<and> get_ok healthy_env \<and> not_removed (final r1) = [] \<and>
     run (rerun_env healthy_env r1) = Inr r2 \<and>
     calls (final r2) = [] \<and> store (final r2) = store (final r1) \<and>
     new_documents (printed r2) = 0 \<and> new_files_added (printed r2) = 0 \<and>
     files_deleted (printed r2) = 0 \<and> files_skipped (printed r2) = 3"
proof -
  obtain r1 where r1: "run healthy_env = Inr r1" and nf: "not_removed (final r1) = []"
    using healthy_run by blast
  have ok: "get_ok healthy_env" using healthy_loaders by blast
  have l: "\<forall>v\<in>set (visits (corpus healthy_env)).
      loader_for healthy_env (snd (snd v)) (fst (snd v)) \<noteq> Inr []"
    using healthy_loaders by blast
  from C6_second_run_is_idle [OF r1 ok nf] l obtain r2 where
    r2: "run (rerun_env healthy_env r1) = Inr r2"
    and f: "calls (final r2) = []" "store (final r2) = store (final r1)"
      "new_documents (printed r2) = 0" "new_files_added (printed r2) = 0"
      "files_deleted (printed r2) = 0"
      "files_skipped (printed r2) = card (set (current_files (scanned r2)))"
    by blast
  have "set (current_files (scanned r2)) =
      {''knowledge_docs/sdwan/a.md'', ''knowledge_docs/sdwan/keep.md'',
       ''knowledge_docs/sdwan/deep/b.pdf''}"
    using run_documents(2) [OF r2] healthy_paths by (simp add: rerun_env_simps)
  then have "files_skipped (printed r2) = 3" by (simp add: f(6))
  with r1 ok nf r2 f show ?thesis by blast
qed

theorem C6_counterexample:
  "on_result (calls \<circ> final) (second_run sample_env) =
     Some [Delete ''knowledge_docs/sdwan/gone.md''] \<and>
   on_result (files_deleted \<circ> printed) (second_run sample_env) = Some 1 \<and>
   on_result upsert_sizes (second_run unreadable_env) = Some [4] \<and>
   on_result (new_documents \<circ> printed) (second_run unreadable_env) = Some 4"
  by (simp add: on_result_def second_run_def rerun_env_def upsert_sizes_def run_eval
      unreadable_env_def healthy_env_def sample_env_def sample_corpus_def sample_store_def)

lemma visits_chunk_log:
  "for_each (visit e ex) vs st = Inr st' \<Longrightarrow>
   chunk_log st' = chunk_log st @
     map (\<lambda>v. length (texts_of e (snd (snd v)) (fst (snd v))))
       (filter (\<lambda>v. fst (snd v) \<notin> set ex) vs)"
  by (induction vs arbitrary: st)
    (auto simp: visit_def texts_of_def Let_def split: sum.splits if_splits prod.splits)

lemma run_chunk_log:
  assumes "run e = Inr r"
  shows "chunk_log (scanned r) =
     map (\<lambda>v. length (texts_of e (snd (snd v)) (fst (snd v))))
       (filter (\<lambda>v. fst (snd v) \<notin> set (existing r)) (visits (corpus e)))"
proof -
  have "for_each (visit e (existing r)) (visits (corpus e)) init_scan = Inr (scanned r)"
    using run_scan [OF assms] by (simp add: scan_visits run_existing [OF assms])
  from visits_chunk_log [OF this] show ?thesis by (simp add: init_scan_def)
qed


lemma sample_run_submitted:
  "\<exists>r. run sample_env = Inr r \<and>
       read_log (scanned r) = [''knowledge_docs/sdwan/a.md'', ''knowledge_docs/sdwan/deep/b.pdf''] \<and>
       skip_log (scanned r) = [''knowledge_docs/sdwan/keep.md''] \<and>
       deleted_sources r = [''knowledge_docs/sdwan/gone.md'', ''knowledge_docs/sdwan/old.md''] \<and>
       files_skipped (printed r) = 1 \<and>
       concat (map call_documents (calls (final r))) =
         [\<lparr>page_content = ''text'',
            metadata = [(''source'', ''knowledge_docs/sdwan/a.md''), (''product'', ''sdwan'')]\<rparr>,
          \<lparr>page_content = ''page one'',
            metadata = [(''source'', ''knowledge_docs/sdwan/deep/b.pdf''), (''product'', ''sdwan'')]\<rparr>,
          \<lparr>page_content = ''page two'',
            metadata = [(''source'', ''knowledge_docs/sdwan/deep/b.pdf''), (''product'', ''sdwan'')]\<rparr>]"
  by (simp add: run_eval sample_env_def sample_corpus_def sample_store_def)

text \<open>
  C3. The three classes of a run are the differences and the intersection of the two
  sets of source identifiers, the paths the scan found and the sources of the snapshot.
  The files processed as new are the current files that are not in the snapshot: these
  are the files announced as read, each of them is loaded, and the documents handed to
  the backend are exactly the loaded documents of these files, stamped, in the order
  of the scan; no document of any other source is handed over. The sources for which
  a delete is issued are the sources of the snapshot that are not current files. The
  files skipped are those in both, and the count printed for them is the size of the
  intersection.
\<close>

theorem C3_diff_of_corpus_and_index:
  assumes "run e = Inr r"
  shows "existing r = read_existing_sources e \<and>
         set (current_files (scanned r)) = (\<lambda>v. fst (snd v)) ` set (visits (corpus e)) \<and>
         set (read_log (scanned r)) = set (current_files (scanned r)) - set (existing r) \<and>
         concat (map call_documents (calls (final r))) =
           new_docs e (existing r) (visits (corpus e)) \<and>
         (\<forall>v\<in>set (visits (corpus e)). fst (snd v) \<notin> set (existing r) \<longrightarrow>
            (\<exists>docs. loader_for e (snd (snd v)) (fst (snd v)) = Inr docs \<and>
               set (map (stamp (fst v) (fst (snd v))) docs)
                 \<subseteq> set (concat (map call_documents (calls (final r)))))) \<and>
         (\<forall>d\<in>set (concat (map call_documents (calls (final r)))).
            \<exists>p. source_of d = Some p \<and>
                p \<in> set (current_files (scanned r)) - set (existing r)) \<and>
         set (concat (map delete_target (calls (final r)))) =
           set (existing r) - set (current_files (scanned r)) \<and>
         set (skip_log (scanned r)) = set (current_files (scanned r)) \<inter> set (existing r) \<and>
         files_skipped (printed r) = card (set (current_files (scanned r)) \<inter> set (existing r))"
proof -
  let ?sub = "concat (map call_documents (calls (final r)))"
  have ex: "existing r = read_existing_sources e" by (rule run_existing [OF assms])
  have cur: "set (current_files (scanned r)) = (\<lambda>v. fst (snd v)) ` set (visits (corpus e))"
    by (rule run_documents(2) [OF assms])
  have sub: "?sub = new_docs e (existing r) (visits (corpus e))"
    by (simp add: run_submitted [OF assms] run_documents(1) [OF assms])
  have scan: "for_each (visit e (existing r)) (visits (corpus e)) init_scan = Inr (scanned r)"
    using run_scan [OF assms] by (simp add: scan_visits ex)
  have new: "set (read_log (scanned r)) = set (current_files (scanned r)) - set (existing r)"
    by (auto simp: run_logs(1) [OF assms] cur)
  have loaded: "\<exists>docs. loader_for e (snd (snd v)) (fst (snd v)) = Inr docs \<and>
        set (map (stamp (fst v) (fst (snd v))) docs) \<subseteq> set ?sub"
    if v: "v \<in> set (visits (corpus e))" and n: "fst (snd v) \<notin> set (existing r)" for v
  proof -
    obtain product full_path fname where p: "v = (product, full_path, fname)" by (cases v) auto
    from v n p have v': "(product, full_path, fname) \<in> set (visits (corpus e))"
      and n': "full_path \<notin> set (existing r)" by simp_all
    from visits_loaded [OF scan v' n'] obtain docs where
      l: "loader_for e fname full_path = Inr docs" by blast
    have "stamp product full_path d0 \<in> set ?sub" if "d0 \<in> set docs" for d0
      unfolding sub by (rule new_docs_member [OF v' n' l that])
    with l p show ?thesis by auto
  qed
  have only: "\<exists>p. source_of d = Some p \<and> p \<in> set (current_files (scanned r)) - set (existing r)"
    if "d \<in> set ?sub" for d
  proof -
    from that have "d \<in> set (documents (scanned r))" by (simp add: run_submitted [OF assms])
    from run_document_sources [OF assms this] show ?thesis by auto
  qed
  have del: "set (concat (map delete_target (calls (final r)))) =
           set (existing r) - set (current_files (scanned r))"
    by (auto simp: run_delete_targets [OF assms] run_deleted_sources [OF assms])
  have skip: "set (skip_log (scanned r)) = set (current_files (scanned r)) \<inter> set (existing r)"
    by (auto simp: run_logs(2) [OF assms] cur)
  have "distinct (filter (\<lambda>s. s \<in> set (current_files (scanned r))) (existing r))"
    using run_existing_distinct [OF assms] by simp
  then have "length (filter (\<lambda>s. s \<in> set (current_files (scanned r))) (existing r)) =
        card (set (filter (\<lambda>s. s \<in> set (current_files (scanned r))) (existing r)))"
    by (rule distinct_card [symmetric])
  also have "set (filter (\<lambda>s. s \<in> set (current_files (scanned r))) (existing r)) =
        set (current_files (scanned r)) \<inter> set (existing r)"
    by auto
  finally have cnt: "files_skipped (printed r) =
        card (set (current_files (scanned r)) \<inter> set (existing r))"
    by (simp add: run_printed [OF assms])
  from ex cur new sub loaded only del skip cnt show ?thesis by blast
qed

theorem C3_witness:
  "\<exists>r. run sample_env = Inr r \<and>
       set (read_log (scanned r)) = set (current_files (scanned r)) - set (existing r) \<and>
       read_log (scanned r) = [''knowledge_docs/sdwan/a.md'', ''knowledge_docs/sdwan/deep/b.pdf''] \<and>
       concat (map call_documents (calls (final r))) =
         new_docs sample_env (existing r) (visits (corpus sample_env)) \<and>
       concat (map call_documents (calls (final r))) =
         [\<lparr>page_content = ''text'',
            metadata = [(''source'', ''knowledge_docs/sdwan/a.md''), (''product'', ''sdwan'')]\<rparr>,
          \<lparr>page_content = ''page one'',
            metadata = [(''source'', ''knowledge_docs/sdwan/deep/b.pdf''), (''product'', ''sdwan'')]\<rparr>,
          \<lparr>page_content = ''page two'',
            metadata = [(''source'', ''knowledge_docs/sdwan/deep/b.pdf''), (''product'', ''sdwan'')]\<rparr>] \<and>
       set (concat (map delete_target (calls (final r)))) =
         set (existing r) - set (current_files (scanned r)) \<and>
       concat (map delete_target (calls (final r))) =
         [''knowledge_docs/sdwan/gone.md'', ''knowledge_docs/sdwan/old.md''] \<and>
       set (skip_log (scanned r)) = set (current_files (scanned r)) \<inter> set (existing r) \<and>
       skip_log (scanned r) = [''knowledge_docs/sdwan/keep.md''] \<and>
       files_skipped (printed r) = card (set (current_files (scanned r)) \<inter> set (existing r)) \<and>
       files_skipped (printed r) = 1"
proof -
  obtain r where r: "run sample_env = Inr r"
    and f: "read_log (scanned r) = [''knowledge_docs/sdwan/a.md'', ''knowledge_docs/sdwan/deep/b.pdf'']"
      "skip_log (scanned r) = [''knowledge_docs/sdwan/keep.md'']"
      "deleted_sources r = [''knowledge_docs/sdwan/gone.md'', ''knowledge_docs/sdwan/old.md'']"
      "files_skipped (printed r) = 1"
    and s: "concat (map call_documents (calls (final r))) =
         [\<lparr>page_content = ''text'',
            metadata = [(''source'', ''knowledge_docs/sdwan/a.md''), (''product'', ''sdwan'')]\<rparr>,
          \<lparr>page_content = ''page one'',
            metadata = [(''source'', ''knowledge_docs/sdwan/deep/b.pdf''), (''product'', ''sdwan'')]\<rparr>,
          \<lparr>page_content = ''page two'',
            metadata = [(''source'', ''knowledge_docs/sdwan/deep/b.pdf''), (''product'', ''sdwan'')]\<rparr>]"
    using sample_run_submitted by blast
  have d: "concat (map delete_target (calls (final r))) = deleted_sources r"
    by (rule run_delete_targets [OF r])
  note c = C3_diff_of_corpus_and_index [OF r]
  show ?thesis
  proof (intro exI [of _ r] conjI)
    show "run sample_env = Inr r" by (rule r)
    show "set (read_log (scanned r)) = set (current_files (scanned r)) - set (existing r)"
      using c by blast
    show "read_log (scanned r) = [''knowledge_docs/sdwan/a.md'', ''knowledge_docs/sdwan/deep/b.pdf'']"
      by (rule f(1))
    show "concat (map call_documents (calls (final r))) =
         new_docs sample_env (existing r) (visits (corpus sample_env))"
      using c by blast
    show "concat (map call_documents (calls (final r))) =
         [\<lparr>page_content = ''text'',
            metadata = [(''source'', ''knowledge_docs/sdwan/a.md''), (''product'', ''sdwan'')]\<rparr>,
          \<lparr>page_content = ''page one'',
            metadata = [(''source'', ''knowledge_docs/sdwan/deep/b.pdf''), (''product'', ''sdwan'')]\<rparr>,
          \<lparr>page_content = ''page two'',
            metadata = [(''source'', ''knowledge_docs/sdwan/deep/b.pdf''), (''product'', ''sdwan'')]\<rparr>]"
      by (rule s)
    show "set (concat (map delete_target (calls (final r)))) =
         set (existing r) - set (current_files (scanned r))"
      using c by blast
    show "concat (map delete_target (calls (final r))) =
         [''knowledge_docs/sdwan/gone.md'', ''knowledge_docs/sdwan/old.md'']"
      using d f(3) by simp
    show "set (skip_log (scanned r)) = set (current_files (scanned r)) \<inter> set (existing r)"
      using c by blast
    show "skip_log (scanned r) = [''knowledge_docs/sdwan/keep.md'']" by (rule f(2))
    show "files_skipped (printed r) = card (set (current_files (scanned r)) \<inter> set (existing r))"
      using c by blast
    show "files_skipped (printed r) = 1" by (rule f(4))
  qed
qed

end
